theory Spec2Isabelle
  imports Complex_Main "HOL-Library.Word"
begin

section \<open>Strings and identifiers\<close>

text \<open>
  JavaScript strings are sequences of 16-bit code units. Identifiers, message bodies and
  response bodies of \<^verbatim>\<open>src/App.jsx\<close> are all such strings.
\<close>

type_synonym jsstring = "16 word list"

definition ascii :: "string \<Rightarrow> jsstring" where
  "ascii s = map of_char s"

text \<open>
  Decimal rendering of a number inside a template literal. \<^verbatim>\<open>Date.now()\<close> and
  \<^verbatim>\<open>res.status\<close> are integers far below \<open>10^21\<close>, where JavaScript prints plain
  decimal digits, with a leading minus sign for a negative value.
\<close>

fun digits :: "nat \<Rightarrow> jsstring" where
  "digits n =
     (if n < 10 then [of_nat (48 + n)]
      else digits (n div 10) @ [of_nat (48 + n mod 10)])"

declare digits.simps [simp del]

definition show_int :: "int \<Rightarrow> jsstring" where
  "show_int i = (if i < 0 then ascii ''-'' @ digits (nat (- i)) else digits (nat i))"

text \<open>Reading a string of decimal digits back as a number.\<close>

definition number :: "jsstring \<Rightarrow> nat" where
  "number s = foldl (\<lambda>acc c. 10 * acc + (unat c - 48)) 0 s"

text \<open>
  \<^verbatim>\<open>String.prototype.trim\<close> removes leading and trailing white space and line
  terminators: TAB, LF, VT, FF, CR, SP, NBSP, U+1680, U+2000..U+200A, U+2028, U+2029,
  U+202F, U+205F, U+3000 and U+FEFF.
\<close>

definition is_ws :: "16 word \<Rightarrow> bool" where
  "is_ws c \<longleftrightarrow>
     c \<in> {0x9, 0xA, 0xB, 0xC, 0xD, 0x20, 0xA0, 0x1680, 0x2028, 0x2029, 0x202F, 0x205F,
          0x3000, 0xFEFF}
     \<or> (0x2000 \<le> c \<and> c \<le> 0x200A)"

definition trim :: "jsstring \<Rightarrow> jsstring" where
  "trim s = rev (dropWhile is_ws (rev (dropWhile is_ws s)))"

section \<open>Data model\<close>

record user =
  user_id :: jsstring
  username :: jsstring
  avatar_color :: jsstring

record conversation =
  conv_id :: jsstring
  participant_ids :: "jsstring list"
  last_message_preview :: jsstring

text \<open>
  A message as the client reads it: \<^verbatim>\<open>m.id\<close>, \<^verbatim>\<open>m.text\<close>, \<^verbatim>\<open>m.sender_id\<close> and
  the \<^verbatim>\<open>conversation_id\<close> the optimistic entry is built with.
\<close>

record message =
  msg_id :: jsstring
  msg_text :: jsstring
  sender_id :: jsstring
  conversation_id :: jsstring

text \<open>The calls of the \<^verbatim>\<open>api\<close> object that the synchronisation code issues.\<close>

datatype api_call =
    ListMessages jsstring nat
  | SendMessage jsstring jsstring jsstring
  | MyConversations jsstring

datatype js_error = Error jsstring | SyntaxError | TypeError

section \<open>ChatView\<close>

text \<open>
  The state of one mounted \<^verbatim>\<open>ChatView\<close>: the two \<^verbatim>\<open>useState\<close> cells, the interval
  timer of its effect, and the effects it has on the outside (API calls issued, alerts shown,
  scroll timeouts scheduled), kept as logs.
\<close>

record chat_view =
  messages :: "message list"
  loading :: bool
  timer :: bool
  calls :: "api_call list"
  alerts :: "jsstring list"
  scrolls :: nat

definition ChatView_init :: chat_view where
  "ChatView_init =
     \<lparr>messages = [], loading = True, timer = False, calls = [], alerts = [], scrolls = 0\<rparr>"

text \<open>
  \<^verbatim>\<open>load\<close> is asynchronous. Up to its \<^verbatim>\<open>await\<close> it issues
  \<^verbatim>\<open>api.listMessages(conversation.id, 100)\<close>; when the answer arrives it resumes and
  stores the batch with \<^verbatim>\<open>setMessages(msgs)\<close>. A rejected request ends \<^verbatim>\<open>load\<close>
  without touching the state.
\<close>

definition load_call :: "conversation \<Rightarrow> chat_view \<Rightarrow> chat_view" where
  "load_call conv cv = cv\<lparr>calls := calls cv @ [ListMessages (conv_id conv) 100]\<rparr>"

definition load_resume :: "js_error + message list \<Rightarrow> chat_view \<Rightarrow> chat_view" where
  "load_resume answer cv =
     (case answer of
        Inl e \<Rightarrow> cv
      | Inr msgs \<Rightarrow> cv\<lparr>messages := msgs, loading := False, scrolls := scrolls cv + 1\<rparr>)"

text \<open>
  The effect of \<^verbatim>\<open>ChatView\<close>: on mount \<^verbatim>\<open>load()\<close> runs at once and
  \<^verbatim>\<open>setInterval(load, 2000)\<close> arms the timer; every tick of an armed timer runs
  \<^verbatim>\<open>load\<close>; the cleanup is \<^verbatim>\<open>clearInterval(iv)\<close> and nothing else.
\<close>

definition poll_start :: "conversation \<Rightarrow> chat_view \<Rightarrow> chat_view" where
  "poll_start conv cv = (load_call conv cv)\<lparr>timer := True\<rparr>"

definition poll_tick :: "conversation \<Rightarrow> chat_view \<Rightarrow> chat_view" where
  "poll_tick conv cv = (if timer cv then load_call conv cv else cv)"

definition poll_stop :: "chat_view \<Rightarrow> chat_view" where
  "poll_stop cv = cv\<lparr>timer := False\<rparr>"

text \<open>
  \<^verbatim>\<open>send\<close> builds the optimistic entry with the identifier
  \<^verbatim>\<open>`tmp-${Date.now()}`\<close>; the clock reading \<open>now\<close> is an input of the model.
\<close>

definition optimistic_id :: "int \<Rightarrow> jsstring" where
  "optimistic_id now = ascii ''tmp-'' @ show_int now"

definition optimistic :: "user \<Rightarrow> conversation \<Rightarrow> int \<Rightarrow> jsstring \<Rightarrow> message" where
  "optimistic me conv now txt =
     \<lparr>msg_id = optimistic_id now, msg_text = txt, sender_id = user_id me,
      conversation_id = conv_id conv\<rparr>"

text \<open>
  \<^verbatim>\<open>send\<close> up to its \<^verbatim>\<open>await\<close>: append the optimistic entry, schedule the scroll,
  issue \<^verbatim>\<open>api.sendMessage\<close>.
\<close>

definition send_call :: "user \<Rightarrow> conversation \<Rightarrow> int \<Rightarrow> jsstring \<Rightarrow> chat_view \<Rightarrow> chat_view" where
  "send_call me conv now txt cv =
     cv\<lparr>messages := messages cv @ [optimistic me conv now txt],
        scrolls := scrolls cv + 1,
        calls := calls cv @ [SendMessage (conv_id conv) (user_id me) txt]\<rparr>"

text \<open>
  \<^verbatim>\<open>send\<close> after its \<^verbatim>\<open>await\<close>: on success every entry carrying the optimistic
  identifier is mapped to the message the server returned; on failure every such entry is
  filtered out and the alert is shown.
\<close>

definition send_resume :: "jsstring \<Rightarrow> js_error + message \<Rightarrow> chat_view \<Rightarrow> chat_view" where
  "send_resume oid answer cv =
     (case answer of
        Inr sent \<Rightarrow> cv\<lparr>messages := map (\<lambda>m. if msg_id m = oid then sent else m) (messages cv)\<rparr>
      | Inl e \<Rightarrow> cv\<lparr>messages := filter (\<lambda>m. msg_id m \<noteq> oid) (messages cv),
                    alerts := alerts cv @ [ascii ''Failed to send'']\<rparr>)"

text \<open>What \<^verbatim>\<open>ChatView\<close> renders: one keyed bubble per entry of \<^verbatim>\<open>messages\<close>, in order.\<close>

record bubble =
  key :: jsstring
  mine :: bool
  bubble_text :: jsstring
  avatarColor :: jsstring

definition render :: "user \<Rightarrow> user \<Rightarrow> chat_view \<Rightarrow> bubble list" where
  "render me peer cv =
     map (\<lambda>m. \<lparr>key = msg_id m, mine = (sender_id m = user_id me), bubble_text = msg_text m,
               avatarColor = (if sender_id m = user_id me then avatar_color me
                              else avatar_color peer)\<rparr>)
         (messages cv)"

section \<open>Between submission and resolution\<close>

text \<open>
  What can happen to the message list of \<^verbatim>\<open>ChatView\<close> while one send waits for its
  answer: another send is submitted, another send settles, the answer of a list request is
  applied, or the poll timer fires. Each is the code above.
\<close>

datatype interim_event =
    Other_send int jsstring
  | Other_settles jsstring "js_error + message"
  | Batch_applied "js_error + message list"
  | Poll_fires

fun interim_step :: "user \<Rightarrow> conversation \<Rightarrow> interim_event \<Rightarrow> chat_view \<Rightarrow> chat_view" where
  "interim_step me conv (Other_send now txt) cv = send_call me conv now txt cv"
| "interim_step me conv (Other_settles p answer) cv = send_resume p answer cv"
| "interim_step me conv (Batch_applied answer) cv = load_resume answer cv"
| "interim_step me conv Poll_fires cv = poll_tick conv cv"

definition interim :: "user \<Rightarrow> conversation \<Rightarrow> interim_event list \<Rightarrow> chat_view \<Rightarrow> chat_view" where
  "interim me conv evs cv = fold (interim_step me conv) evs cv"

text \<open>
  \<open>apart oid sid\<close> holds of what leaves the waiting send alone: no successful batch, and
  other sends and settlements that involve neither its optimistic identifier \<open>oid\<close> nor
  the identifier \<open>sid\<close> of its confirmed message. \<open>keeps_out oid\<close> holds of what does
  not bring the identifier \<open>oid\<close> into the list.
\<close>

fun apart :: "jsstring \<Rightarrow> jsstring \<Rightarrow> interim_event \<Rightarrow> bool" where
  "apart oid sid (Other_send now txt) \<longleftrightarrow> optimistic_id now \<noteq> oid \<and> optimistic_id now \<noteq> sid"
| "apart oid sid (Other_settles p (Inr m)) \<longleftrightarrow> p \<noteq> oid \<and> msg_id m \<noteq> oid \<and> msg_id m \<noteq> sid"
| "apart oid sid (Other_settles p (Inl e)) \<longleftrightarrow> p \<noteq> oid"
| "apart oid sid (Batch_applied (Inr b)) \<longleftrightarrow> False"
| "apart oid sid (Batch_applied (Inl e)) \<longleftrightarrow> True"
| "apart oid sid Poll_fires \<longleftrightarrow> True"

fun keeps_out :: "jsstring \<Rightarrow> interim_event \<Rightarrow> bool" where
  "keeps_out oid (Other_send now txt) \<longleftrightarrow> optimistic_id now \<noteq> oid"
| "keeps_out oid (Other_settles p (Inr m)) \<longleftrightarrow> msg_id m \<noteq> oid"
| "keeps_out oid (Other_settles p (Inl e)) \<longleftrightarrow> True"
| "keeps_out oid (Batch_applied (Inr b)) \<longleftrightarrow> oid \<notin> set (map msg_id b)"
| "keeps_out oid (Batch_applied (Inl e)) \<longleftrightarrow> True"
| "keeps_out oid Poll_fires \<longleftrightarrow> True"

section \<open>InputBar\<close>

text \<open>
  The input bar keeps the draft in a \<^verbatim>\<open>useState\<close> cell. Its \<^verbatim>\<open>send\<close> trims the
  draft, returns at once when nothing is left, and otherwise hands the trimmed text to
  \<^verbatim>\<open>onSend\<close> (which is \<^verbatim>\<open>ChatView\<close>'s \<^verbatim>\<open>send\<close>), clears the draft and
  refocuses the field.
\<close>

record input_bar =
  draft :: jsstring
  focuses :: nat

definition InputBar_send ::
  "user \<Rightarrow> conversation \<Rightarrow> int \<Rightarrow> input_bar \<times> chat_view \<Rightarrow> input_bar \<times> chat_view" where
  "InputBar_send me conv now st =
     (case st of (bar, cv) \<Rightarrow>
        (let t = trim (draft bar) in
         if t = [] then (bar, cv)
         else (bar\<lparr>draft := [], focuses := focuses bar + 1\<rparr>, send_call me conv now t cv)))"

section \<open>Home: the conversation list loop\<close>

text \<open>
  One run of the effect of \<^verbatim>\<open>Home\<close>: the closure variable \<^verbatim>\<open>on\<close>, the interval
  timer, the \<^verbatim>\<open>conversations\<close> cell it writes and the calls it issues. The answer of a
  request is applied only \<^verbatim>\<open>if(on)\<close>; the cleanup sets \<^verbatim>\<open>on = false\<close> and clears
  the interval.
\<close>

record home =
  conversations :: "conversation list"
  on :: bool
  home_timer :: bool
  home_calls :: "api_call list"

definition home_load_call :: "user \<Rightarrow> home \<Rightarrow> home" where
  "home_load_call me h = h\<lparr>home_calls := home_calls h @ [MyConversations (user_id me)]\<rparr>"

definition home_load_resume :: "js_error + conversation list \<Rightarrow> home \<Rightarrow> home" where
  "home_load_resume answer h =
     (case answer of
        Inl e \<Rightarrow> h
      | Inr cs \<Rightarrow> if on h then h\<lparr>conversations := cs\<rparr> else h)"

definition home_start :: "user \<Rightarrow> home \<Rightarrow> home" where
  "home_start me h = (home_load_call me (h\<lparr>on := True\<rparr>))\<lparr>home_timer := True\<rparr>"

definition home_tick :: "user \<Rightarrow> home \<Rightarrow> home" where
  "home_tick me h = (if home_timer h then home_load_call me h else h)"

definition home_stop :: "home \<Rightarrow> home" where
  "home_stop h = h\<lparr>on := False, home_timer := False\<rparr>"

text \<open>
  What can still happen to a loop once it runs: its timer callback fires, or the answer of
  a request it issued arrives.
\<close>

datatype 'a loop_event = Fires | Arrives "js_error + 'a"

fun home_event :: "user \<Rightarrow> conversation list loop_event \<Rightarrow> home \<Rightarrow> home" where
  "home_event me Fires h = home_tick me h"
| "home_event me (Arrives answer) h = home_load_resume answer h"

fun chat_event :: "conversation \<Rightarrow> message list loop_event \<Rightarrow> chat_view \<Rightarrow> chat_view" where
  "chat_event conv Fires cv = poll_tick conv cv"
| "chat_event conv (Arrives answer) cv = load_resume answer cv"

section \<open>Transport\<close>

datatype jsnumber = Finite rat | Infinite

datatype json =
    JNull
  | JBool bool
  | JNum jsnumber
  | JStr jsstring
  | JArr "json list"
  | JObj "(jsstring \<times> json) list"






section \<open>The stored profile\<close>

text \<open>JavaScript truthiness of a parsed JSON value, as \<^verbatim>\<open>!user\<close> tests it.\<close>

fun truthy :: "json \<Rightarrow> bool" where
  "truthy JNull = False"
| "truthy (JBool b) = b"
| "truthy (JNum (Finite q)) = (q \<noteq> 0)"
| "truthy (JNum Infinite) = True"
| "truthy (JStr s) = (s \<noteq> [])"
| "truthy (JArr xs) = True"
| "truthy (JObj kvs) = True"

text \<open>
  The initial value of the user cell of \<^verbatim>\<open>useLocalUser\<close>. \<open>parse\<close> is
  \<^verbatim>\<open>JSON.parse\<close> and \<open>item\<close> is how \<^verbatim>\<open>localStorage.getItem('chat_user')\<close> settles:
  it throws, or it returns \<^verbatim>\<open>null\<close> (no such key) or the stored string. Whatever is
  thrown inside the \<^verbatim>\<open>try\<close> is caught and \<^verbatim>\<open>null\<close> is returned.
\<close>

definition useLocalUser ::
  "(jsstring \<Rightarrow> js_error + json) \<Rightarrow> js_error + jsstring option \<Rightarrow> json" where
  "useLocalUser parse item =
     (case item of
        Inl e \<Rightarrow> JNull
      | Inr stored \<Rightarrow>
          (case parse (case stored of
                         None \<Rightarrow> ascii ''null''
                       | Some s \<Rightarrow> if s \<noteq> [] then s else ascii ''null'') of
             Inl e \<Rightarrow> JNull
           | Inr u \<Rightarrow> u))"

datatype screen = Onboard | Home json

definition App :: "(jsstring \<Rightarrow> js_error + json) \<Rightarrow> js_error + jsstring option \<Rightarrow> screen" where
  "App parse item =
     (let u = useLocalUser parse item in if \<not> truthy u then Onboard else Home u)"

section \<open>The client together with the Store Service\<close>

text \<open>
  Modelled from the spec: the Store Service, which is outside the repository. To speak about
  interleavings the client is put next to it. The client side of every step is the code
  above. The service is taken from section 6 of the specification: it keeps the messages of
  the conversation in creation order, gives every message it accepts an identifier of its
  own, answers a send with the stored message and answers a list request with the newest
  window of at most \<open>limit\<close> messages.

  \<open>submitted\<close> holds the sends that are on their way to the server and \<open>replies\<close> the
  answers on their way back, both keyed by the optimistic identifier that the waiting
  continuation of \<^verbatim>\<open>send\<close> holds; \<open>requested\<close> counts the list requests on their way
  to the server and \<open>fetched\<close> holds their answers on the way back.
\<close>

record system =
  client :: chat_view
  store :: "message list"
  submitted :: "jsstring \<rightharpoonup> jsstring"
  replies :: "jsstring \<rightharpoonup> js_error + message"
  requested :: nat
  fetched :: "(js_error + message list) list"

text \<open>Local identifiers are the ones of the form \<^verbatim>\<open>tmp-...\<close>.\<close>

definition is_local :: "jsstring \<Rightarrow> bool" where
  "is_local ident \<longleftrightarrow> take 4 ident = ascii ''tmp-''"

definition window :: "nat \<Rightarrow> message list \<Rightarrow> message list" where
  "window limit ms = drop (length ms - limit) ms"

definition stored :: "jsstring \<Rightarrow> jsstring \<Rightarrow> jsstring \<Rightarrow> jsstring \<Rightarrow> message" where
  "stored sid conv_ident sender txt =
     \<lparr>msg_id = sid, msg_text = txt, sender_id = sender, conversation_id = conv_ident\<rparr>"

text \<open>
  The steps of the whole. The user submits a draft at a clock reading; the server accepts
  a submitted send under a new identifier (its answer may still be lost on the way back),
  or the send fails; the answer of a send reaches the client; the peer posts a message; the
  poll timer fires; the server answers a list request, or the request fails; the answer of
  a list request reaches the client.

  A step that is not possible in a state yields \<open>None\<close>. The server never issues an
  identifier twice nor one of the local form, and the user's clock does not give a reading
  whose identifier is still in use: these are the assumptions on the environment.
\<close>

datatype event =
    User_sends int jsstring
  | Server_accepts jsstring jsstring "js_error option"
  | Send_fails jsstring js_error
  | Send_settles jsstring
  | Peer_posts jsstring jsstring
  | Timer_fires
  | Server_lists
  | List_fails js_error
  | List_settles nat

definition step :: "user \<Rightarrow> user \<Rightarrow> conversation \<Rightarrow> event \<Rightarrow> system \<Rightarrow> system option" where
  "step me peer conv ev s =
     (case ev of
        User_sends now d \<Rightarrow>
          (let t = trim d; p = optimistic_id now in
           if t = [] then Some s
           else if p \<in> set (map msg_id (messages (client s)))
                   \<or> submitted s p \<noteq> None \<or> replies s p \<noteq> None
           then None
           else Some (s\<lparr>client := send_call me conv now t (client s),
                        submitted := (submitted s)(p \<mapsto> t)\<rparr>))
      | Server_accepts p sid lost \<Rightarrow>
          (case submitted s p of
             None \<Rightarrow> None
           | Some t \<Rightarrow>
               if is_local sid \<or> sid \<in> set (map msg_id (store s)) then None
               else
                 (let m = stored sid (conv_id conv) (user_id me) t in
                  Some (s\<lparr>store := store s @ [m],
                          submitted := (submitted s)(p := None),
                          replies := (replies s)(p \<mapsto>
                            (case lost of None \<Rightarrow> Inr m | Some e \<Rightarrow> Inl e))\<rparr>)))
      | Send_fails p e \<Rightarrow>
          (case submitted s p of
             None \<Rightarrow> None
           | Some t \<Rightarrow>
               Some (s\<lparr>submitted := (submitted s)(p := None),
                       replies := (replies s)(p \<mapsto> Inl e)\<rparr>))
      | Send_settles p \<Rightarrow>
          (case replies s p of
             None \<Rightarrow> None
           | Some answer \<Rightarrow>
               Some (s\<lparr>client := send_resume p answer (client s),
                       replies := (replies s)(p := None)\<rparr>))
      | Peer_posts sid t \<Rightarrow>
          if is_local sid \<or> sid \<in> set (map msg_id (store s)) then None
          else Some (s\<lparr>store := store s @ [stored sid (conv_id conv) (user_id peer) t]\<rparr>)
      | Timer_fires \<Rightarrow>
          Some (s\<lparr>client := poll_tick conv (client s),
                  requested := requested s + (if timer (client s) then 1 else 0)\<rparr>)
      | Server_lists \<Rightarrow>
          if requested s = 0 then None
          else Some (s\<lparr>requested := requested s - 1,
                       fetched := fetched s @ [Inr (window 100 (store s))]\<rparr>)
      | List_fails e \<Rightarrow>
          if requested s = 0 then None
          else Some (s\<lparr>requested := requested s - 1, fetched := fetched s @ [Inl e]\<rparr>)
      | List_settles k \<Rightarrow>
          if length (fetched s) \<le> k then None
          else Some (s\<lparr>client := load_resume (fetched s ! k) (client s),
                       fetched := take k (fetched s) @ drop (Suc k) (fetched s)\<rparr>))"

fun run :: "user \<Rightarrow> user \<Rightarrow> conversation \<Rightarrow> event list \<Rightarrow> system \<Rightarrow> system option" where
  "run me peer conv [] s = Some s"
| "run me peer conv (ev # evs) s =
     (case step me peer conv ev s of None \<Rightarrow> None | Some s' \<Rightarrow> run me peer conv evs s')"

text \<open>
  Opening the conversation: \<^verbatim>\<open>ChatView\<close> mounts, its effect issues the first list
  request and arms the timer. \<open>before\<close> is what the server already stores.
\<close>

definition mount :: "conversation \<Rightarrow> message list \<Rightarrow> system" where
  "mount conv before =
     \<lparr>client = poll_start conv ChatView_init, store = before, submitted = Map.empty,
      replies = Map.empty, requested = 1, fetched = []\<rparr>"

definition store_ok :: "message list \<Rightarrow> bool" where
  "store_ok ms \<longleftrightarrow> distinct (map msg_id ms) \<and> (\<forall>m \<in> set ms. \<not> is_local (msg_id m))"

text \<open>
  What holds of every state the whole can reach: the server's identifiers are pairwise
  distinct and not local; a list answer in flight is a duplicate-free part of the store; the
  view has no identifier twice; a local identifier in the view belongs to a send that has
  not settled and every other identifier in the view is stored; a confirmed message in a
  pending answer is stored, no two pending answers confirm the same message, and the view
  does not hold both the optimistic entry of a send and the message that confirms it.
\<close>

definition consistent :: "system \<Rightarrow> bool" where
  "consistent s \<longleftrightarrow>
     store_ok (store s)
     \<and> (\<forall>b. Inr b \<in> set (fetched s) \<longrightarrow>
            set (map msg_id b) \<subseteq> set (map msg_id (store s)) \<and> distinct (map msg_id b))
     \<and> distinct (map msg_id (messages (client s)))
     \<and> (\<forall>m \<in> set (messages (client s)).
            if is_local (msg_id m)
            then submitted s (msg_id m) \<noteq> None \<or> replies s (msg_id m) \<noteq> None
            else msg_id m \<in> set (map msg_id (store s)))
     \<and> (\<forall>p. submitted s p \<noteq> None \<or> replies s p \<noteq> None \<longrightarrow> is_local p)
     \<and> (\<forall>p. submitted s p \<noteq> None \<longrightarrow> replies s p = None)
     \<and> (\<forall>p m. replies s p = Some (Inr m) \<longrightarrow> msg_id m \<in> set (map msg_id (store s)))
     \<and> (\<forall>p q m n. replies s p = Some (Inr m) \<and> replies s q = Some (Inr n)
            \<and> msg_id m = msg_id n \<longrightarrow> p = q)
     \<and> (\<forall>p m. replies s p = Some (Inr m) \<and> p \<in> set (map msg_id (messages (client s)))
            \<longrightarrow> msg_id m \<notin> set (map msg_id (messages (client s))))"

section \<open>Example values\<close>

text \<open>The scenario of the specification: user 1 and user 2 in conversation 9.\<close>

definition alice :: user where
  "alice = \<lparr>user_id = ascii ''1'', username = ascii ''A'', avatar_color = ascii ''#6366F1''\<rparr>"

definition bob :: user where
  "bob = \<lparr>user_id = ascii ''2'', username = ascii ''B'', avatar_color = ascii ''#10B981''\<rparr>"

definition conv9 :: conversation where
  "conv9 = \<lparr>conv_id = ascii ''9'', participant_ids = [ascii ''1'', ascii ''2''],
            last_message_preview = []\<rparr>"

definition m7 :: message where
  "m7 = stored (ascii ''7'') (ascii ''9'') (ascii ''2'') (ascii ''yo'')"

definition m101 :: message where
  "m101 = stored (ascii ''101'') (ascii ''9'') (ascii ''1'') (ascii ''hi'')"

text \<open>
  A stand-in for \<^verbatim>\<open>JSON.parse\<close> that knows the literal \<^verbatim>\<open>null\<close> only, for running
  the profile code on a concrete input.
\<close>

definition parse_null :: "jsstring \<Rightarrow> js_error + json" where
  "parse_null s = (if s = ascii ''null'' then Inr JNull else Inl SyntaxError)"





section \<open>Lists under \<^verbatim>\<open>map\<close> and \<^verbatim>\<open>filter\<close> by identifier\<close>

lemma filter_fresh: "x \<notin> set (map f xs) \<Longrightarrow> filter (\<lambda>m. f m \<noteq> x) xs = xs"
  by (induction xs) auto

lemma map_fresh: "x \<notin> set (map f xs) \<Longrightarrow> map (\<lambda>m. if f m = x then y else m) xs = xs"
  by (induction xs) auto

lemma replace_ids:
  "set (map f (map (\<lambda>x. if f x = p then m else x) xs)) \<subseteq> insert (f m) (set (map f xs) - {p})"
  by (induction xs) auto

lemma filter_replace_other:
  "p \<noteq> x \<Longrightarrow> f y \<noteq> x \<Longrightarrow>
   filter (\<lambda>m. f m = x) (map (\<lambda>m. if f m = p then y else m) xs) = filter (\<lambda>m. f m = x) xs"
  by (induction xs) auto

lemma filter_filter_other:
  "p \<noteq> x \<Longrightarrow> filter (\<lambda>m. f m \<noteq> p \<and> f m = x) xs = filter (\<lambda>m. f m = x) xs"
  by (induction xs) auto

lemma filter_replaced:
  "f y = s \<Longrightarrow> s \<notin> set (map f xs) \<Longrightarrow>
   filter (\<lambda>m. f m = s) (map (\<lambda>m. if f m = x then y else m) xs)
     = map (\<lambda>m. y) (filter (\<lambda>m. f m = x) xs)"
  by (induction xs) auto

lemma filter_absent: "x \<notin> set (map f xs) \<Longrightarrow> filter (\<lambda>m. f m = x) xs = []"
  by (induction xs) auto

lemma trim_blank: "\<forall>c \<in> set s. is_ws c \<Longrightarrow> trim s = []"
  by (auto simp: trim_def dest: set_dropWhileD)

section \<open>Applying a message batch\<close>

text \<open>
  Claim C8. Applying the same confirmed message batch twice in succession leaves the same
  rendered view as applying it once.
\<close>

theorem load_resume_idempotent:
  "render me peer (load_resume (Inr batch) (load_resume (Inr batch) cv))
     = render me peer (load_resume (Inr batch) cv)"
  by (simp add: load_resume_def render_def)

text \<open>
  Claim C2 says that a batch replaces the confirmed messages only and that unresolved
  pending entries stay, after the newest confirmed message. The code keeps one list and
  \<^verbatim>\<open>setMessages(msgs)\<close> overwrites all of it: here the pending entry of a send at clock
  reading 1000 is gone once the batch holding the peer's message 7 is applied.
\<close>

theorem batch_drops_pending:
  "messages (send_call alice conv9 1000 (ascii ''hi'') ChatView_init)
     = [optimistic alice conv9 1000 (ascii ''hi'')]
   \<and> messages (load_resume (Inr [m7]) (send_call alice conv9 1000 (ascii ''hi'') ChatView_init))
     = [m7]"
  by (simp add: load_resume_def send_call_def ChatView_init_def)

text \<open>
  Claim C2, as the code has it. Applying a batch replaces the whole rendered sequence by
  the batch, in the order the server returned it, whatever the view held before; a pending
  entry added afterwards stands after the last entry of the batch.
\<close>

theorem batch_replaces_view:
  "messages (load_resume (Inr batch) cv) = batch
   \<and> map key (render me peer (load_resume (Inr batch) cv)) = map msg_id batch
   \<and> messages (send_call me conv now txt (load_resume (Inr batch) cv))
       = batch @ [optimistic me conv now txt]"
  by (simp add: load_resume_def send_call_def render_def comp_def)

section \<open>Sending\<close>

text \<open>
  Claim C4. A draft that is empty or holds white space only changes nothing when it is
  submitted: the input bar and the chat view, with its message list and its log of API
  calls, are what they were.
\<close>

theorem InputBar_send_blank:
  "\<forall>c \<in> set (draft bar). is_ws c \<Longrightarrow> InputBar_send me conv now (bar, cv) = (bar, cv)"
  by (simp add: InputBar_send_def trim_blank)

theorem InputBar_send_blank_witness:
  "InputBar_send alice conv9 1000 (\<lparr>draft = [0x20, 0x9, 0x2028, 0xA], focuses = 0\<rparr>, ChatView_init)
     = (\<lparr>draft = [0x20, 0x9, 0x2028, 0xA], focuses = 0\<rparr>, ChatView_init)"
  using InputBar_send_blank
    [of "\<lparr>draft = [0x20, 0x9, 0x2028, 0xA], focuses = 0\<rparr>" alice conv9 1000 ChatView_init]
  by (simp add: is_ws_def)

text \<open>
  Claim C1 says that after a successful send the view holds the message exactly once
  whether or not a batch was applied in between. A batch that was fetched before the
  server stored the message and is applied before the send settles removes the pending
  entry; the continuation of \<^verbatim>\<open>send\<close> then finds no entry to map, and the view is left
  without the message.
\<close>

theorem echo_lost_by_batch:
  "render alice bob (send_resume (optimistic_id 1000) (Inr m101)
      (load_resume (Inr [])
        (send_call alice conv9 1000 (ascii ''hi'') ChatView_init))) = []"
  by (simp add: render_def send_resume_def load_resume_def send_call_def ChatView_init_def)

text \<open>
  While nothing but events that leave it alone happens, the optimistic entry of a send
  stays in the list exactly once and the identifier of its confirmed message stays out.
  An identifier that is not in the list stays out under events that do not bring it in.
\<close>

lemma interim_step_keeps:
  assumes "apart oid sid ev"
    and "filter (\<lambda>m. msg_id m = oid) (messages cv) = [e]"
    and "sid \<notin> set (map msg_id (messages cv))"
  shows "filter (\<lambda>m. msg_id m = oid) (messages (interim_step me conv ev cv)) = [e]
         \<and> sid \<notin> set (map msg_id (messages (interim_step me conv ev cv)))"
proof (cases ev)
  case (Other_send now t)
  with assms show ?thesis
    by (auto simp: send_call_def optimistic_def)
next
  case (Other_settles p answer)
  show ?thesis
  proof (cases answer)
    case (Inl err)
    with Other_settles assms show ?thesis
      by (auto simp: send_resume_def filter_filter_other)
  next
    case (Inr m)
    with Other_settles assms replace_ids [of msg_id p m "messages cv"] show ?thesis
      by (auto simp: send_resume_def filter_replace_other)
  qed
next
  case (Batch_applied answer)
  with assms show ?thesis
    by (cases answer) (simp_all add: load_resume_def)
next
  case Poll_fires
  with assms show ?thesis
    by (simp add: poll_tick_def load_call_def)
qed

lemma interim_keeps:
  "list_all (apart oid sid) evs \<Longrightarrow>
   filter (\<lambda>m. msg_id m = oid) (messages cv) = [e] \<Longrightarrow>
   sid \<notin> set (map msg_id (messages cv)) \<Longrightarrow>
   filter (\<lambda>m. msg_id m = oid) (messages (interim me conv evs cv)) = [e]
   \<and> sid \<notin> set (map msg_id (messages (interim me conv evs cv)))"
proof (induction evs arbitrary: cv)
  case Nil
  then show ?case by (simp add: interim_def)
next
  case (Cons ev evs)
  from Cons.prems have "apart oid sid ev" and rest: "list_all (apart oid sid) evs" by simp_all
  from interim_step_keeps [OF this(1) Cons.prems(2,3), of me conv]
  have "filter (\<lambda>m. msg_id m = oid) (messages (interim_step me conv ev cv)) = [e]"
    and "sid \<notin> set (map msg_id (messages (interim_step me conv ev cv)))" by simp_all
  from Cons.IH [OF rest this] show ?case by (simp add: interim_def)
qed

lemma interim_step_out:
  assumes "keeps_out oid ev" and "oid \<notin> set (map msg_id (messages cv))"
  shows "oid \<notin> set (map msg_id (messages (interim_step me conv ev cv)))"
proof (cases ev)
  case (Other_send now t)
  with assms show ?thesis
    by (auto simp: send_call_def optimistic_def)
next
  case (Other_settles p answer)
  show ?thesis
  proof (cases answer)
    case (Inl err)
    with Other_settles assms show ?thesis
      by (auto simp: send_resume_def)
  next
    case (Inr m)
    with Other_settles assms replace_ids [of msg_id p m "messages cv"] show ?thesis
      by (auto simp: send_resume_def)
  qed
next
  case (Batch_applied answer)
  with assms show ?thesis
    by (cases answer) (simp_all add: load_resume_def)
next
  case Poll_fires
  with assms show ?thesis
    by (simp add: poll_tick_def load_call_def)
qed

lemma interim_out:
  "list_all (keeps_out oid) evs \<Longrightarrow> oid \<notin> set (map msg_id (messages cv)) \<Longrightarrow>
   oid \<notin> set (map msg_id (messages (interim me conv evs cv)))"
proof (induction evs arbitrary: cv)
  case Nil
  then show ?case by (simp add: interim_def)
next
  case (Cons ev evs)
  from Cons.prems have "keeps_out oid ev" and rest: "list_all (keeps_out oid) evs" by simp_all
  from interim_step_out [OF this(1) Cons.prems(2), of me conv]
  have "oid \<notin> set (map msg_id (messages (interim_step me conv ev cv)))" .
  from Cons.IH [OF rest this] show ?case by (simp add: interim_def)
qed

lemma render_filter:
  "filter (\<lambda>b. key b = k) (render me peer cv)
     = map (\<lambda>m. \<lparr>key = msg_id m, mine = (sender_id m = user_id me), bubble_text = msg_text m,
               avatarColor = (if sender_id m = user_id me then avatar_color me
                              else avatar_color peer)\<rparr>)
         (filter (\<lambda>m. msg_id m = k) (messages cv))"
  by (simp add: render_def filter_map comp_def)

lemma render_key_set: "key ` set (render me peer cv) = msg_id ` set (messages cv)"
  by (simp add: render_def image_image)

lemma render_send_resume:
  "render me peer (send_resume p (Inr sent) cv)
     = map (\<lambda>b. if key b = p
                 then \<lparr>key = msg_id sent, mine = (sender_id sent = user_id me),
                       bubble_text = msg_text sent,
                       avatarColor = (if sender_id sent = user_id me then avatar_color me
                                      else avatar_color peer)\<rparr>
                 else b)
         (render me peer cv)"
  by (simp add: render_def send_resume_def comp_def if_distrib cong: if_cong)

text \<open>
  Claim C1, as the code has it. Right after submission the view ends with the pending
  entry, with the text and tagged as mine; this needs no assumption. Suppose that neither
  the optimistic identifier nor the identifier of the confirmed message was in the view
  before, that the two differ, and that the server returns the text and the sender of the
  send. If no batch is applied between submission and resolution, whatever other sends are
  submitted or settle in between (not involving these two identifiers), then the pending
  entry is in the view exactly once until the send settles; settling replaces it in place
  by the confirmed message and leaves every other entry as it is; afterwards the view holds
  exactly one entry with the confirmed identifier, with the text and tagged as mine, and
  none with the optimistic identifier. If a batch without the optimistic identifier was
  applied in between, and nothing after it brings that identifier back, then settling
  changes nothing: the view holds the message only if a batch delivered it.
\<close>

theorem send_echo_then_confirmed:
  "render me peer (send_call me conv now body cv)
     = render me peer cv
       @ [\<lparr>key = optimistic_id now, mine = True, bubble_text = body,
           avatarColor = avatar_color me\<rparr>]
   \<and> (optimistic_id now \<notin> set (map key (render me peer cv))
      \<and> msg_id sent \<notin> set (map key (render me peer cv))
      \<and> msg_id sent \<noteq> optimistic_id now
      \<and> msg_text sent = body \<and> sender_id sent = user_id me
      \<and> list_all (apart (optimistic_id now) (msg_id sent)) evs \<longrightarrow>
        filter (\<lambda>b. key b = optimistic_id now)
          (render me peer (interim me conv evs (send_call me conv now body cv)))
          = [\<lparr>key = optimistic_id now, mine = True, bubble_text = body,
              avatarColor = avatar_color me\<rparr>]
        \<and> render me peer (send_resume (optimistic_id now) (Inr sent)
              (interim me conv evs (send_call me conv now body cv)))
          = map (\<lambda>b. if key b = optimistic_id now
                      then \<lparr>key = msg_id sent, mine = True, bubble_text = body,
                            avatarColor = avatar_color me\<rparr>
                      else b)
              (render me peer (interim me conv evs (send_call me conv now body cv)))
        \<and> filter (\<lambda>b. key b = msg_id sent)
            (render me peer (send_resume (optimistic_id now) (Inr sent)
               (interim me conv evs (send_call me conv now body cv))))
          = [\<lparr>key = msg_id sent, mine = True, bubble_text = body,
              avatarColor = avatar_color me\<rparr>]
        \<and> optimistic_id now
            \<notin> set (map key (render me peer (send_resume (optimistic_id now) (Inr sent)
                  (interim me conv evs (send_call me conv now body cv))))))
   \<and> (optimistic_id now \<notin> set (map msg_id batch)
      \<and> list_all (keeps_out (optimistic_id now)) later \<longrightarrow>
        render me peer (send_resume (optimistic_id now) (Inr sent)
          (interim me conv (earlier @ [Batch_applied (Inr batch)] @ later)
             (send_call me conv now body cv)))
        = render me peer
            (interim me conv (earlier @ [Batch_applied (Inr batch)] @ later)
               (send_call me conv now body cv)))"
proof (intro conjI impI)
  let ?p = "optimistic_id now"
  let ?echo = "\<lparr>key = ?p, mine = True, bubble_text = body, avatarColor = avatar_color me\<rparr>"
  let ?conf = "\<lparr>key = msg_id sent, mine = True, bubble_text = body,
                 avatarColor = avatar_color me\<rparr>"
  show echo: "render me peer (send_call me conv now body cv) = render me peer cv @ [?echo]"
    by (simp add: render_def send_call_def optimistic_def)
  {
    assume hyp: "?p \<notin> set (map key (render me peer cv))
      \<and> msg_id sent \<notin> set (map key (render me peer cv))
      \<and> msg_id sent \<noteq> ?p
      \<and> msg_text sent = body \<and> sender_id sent = user_id me
      \<and> list_all (apart ?p (msg_id sent)) evs"
    let ?mid = "interim me conv evs (send_call me conv now body cv)"
    let ?end = "send_resume ?p (Inr sent) ?mid"
    from hyp have fresh: "?p \<notin> set (map msg_id (messages cv))"
      and new: "msg_id sent \<notin> set (map msg_id (messages cv))"
      and ne: "msg_id sent \<noteq> ?p"
      and same: "msg_text sent = body" "sender_id sent = user_id me"
      and ap: "list_all (apart ?p (msg_id sent)) evs"
      by (simp_all add: render_key_set)
    have start: "filter (\<lambda>m. msg_id m = ?p) (messages (send_call me conv now body cv))
        = [optimistic me conv now body]"
      using fresh by (simp add: send_call_def optimistic_def filter_absent)
    have start': "msg_id sent \<notin> set (map msg_id (messages (send_call me conv now body cv)))"
      using new ne by (simp add: send_call_def optimistic_def)
    from interim_keeps [OF ap start start', of me conv]
    have once: "filter (\<lambda>m. msg_id m = ?p) (messages ?mid) = [optimistic me conv now body]"
      and out: "msg_id sent \<notin> set (map msg_id (messages ?mid))"
      by simp_all
    show pend: "filter (\<lambda>b. key b = ?p) (render me peer ?mid) = [?echo]"
      by (simp add: render_filter once optimistic_def)
    show repl: "render me peer ?end
        = map (\<lambda>b. if key b = ?p then ?conf else b) (render me peer ?mid)"
      by (simp add: render_send_resume same)
    have "filter (\<lambda>m. msg_id m = msg_id sent) (messages ?end) = [sent]"
      using filter_replaced [OF refl out, of ?p] once by (simp add: send_resume_def)
    then show "filter (\<lambda>b. key b = msg_id sent) (render me peer ?end) = [?conf]"
      by (simp add: render_filter same)
    have "set (map msg_id (messages ?end))
        \<subseteq> insert (msg_id sent) (set (map msg_id (messages ?mid)) - {?p})"
      using replace_ids [of msg_id ?p sent "messages ?mid"] by (simp add: send_resume_def)
    with ne show "?p \<notin> set (map key (render me peer ?end))"
      by (auto simp: render_key_set)
  }
  {
    assume hyp: "?p \<notin> set (map msg_id batch) \<and> list_all (keeps_out ?p) later"
    let ?at = "interim me conv (earlier @ [Batch_applied (Inr batch)] @ later)
        (send_call me conv now body cv)"
    have "?at = interim me conv later
        (load_resume (Inr batch) (interim me conv earlier (send_call me conv now body cv)))"
      by (simp add: interim_def)
    moreover have "?p \<notin> set (map msg_id (messages
        (load_resume (Inr batch) (interim me conv earlier (send_call me conv now body cv)))))"
      using hyp by (simp add: load_resume_def)
    ultimately have "?p \<notin> set (map msg_id (messages ?at))"
      using hyp interim_out [of ?p later _ me conv] by simp
    then show "render me peer (send_resume ?p (Inr sent) ?at) = render me peer ?at"
      by (simp add: render_def send_resume_def map_fresh)
  }
qed

theorem send_echo_then_confirmed_witness:
  "render alice bob
     (interim alice conv9 [Other_send 1001 (ascii ''yo''), Poll_fires, Batch_applied (Inl TypeError)]
        (send_call alice conv9 1000 (ascii ''hi'') (load_resume (Inr [m7]) ChatView_init)))
     = [\<lparr>key = ascii ''7'', mine = False, bubble_text = ascii ''yo'',
         avatarColor = ascii ''#10B981''\<rparr>,
        \<lparr>key = ascii ''tmp-1000'', mine = True, bubble_text = ascii ''hi'',
         avatarColor = ascii ''#6366F1''\<rparr>,
        \<lparr>key = ascii ''tmp-1001'', mine = True, bubble_text = ascii ''yo'',
         avatarColor = ascii ''#6366F1''\<rparr>]
   \<and> render alice bob (send_resume (optimistic_id 1000) (Inr m101)
        (interim alice conv9 [Other_send 1001 (ascii ''yo''), Poll_fires, Batch_applied (Inl TypeError)]
           (send_call alice conv9 1000 (ascii ''hi'') (load_resume (Inr [m7]) ChatView_init))))
     = [\<lparr>key = ascii ''7'', mine = False, bubble_text = ascii ''yo'',
         avatarColor = ascii ''#10B981''\<rparr>,
        \<lparr>key = ascii ''101'', mine = True, bubble_text = ascii ''hi'',
         avatarColor = ascii ''#6366F1''\<rparr>,
        \<lparr>key = ascii ''tmp-1001'', mine = True, bubble_text = ascii ''yo'',
         avatarColor = ascii ''#6366F1''\<rparr>]
   \<and> render alice bob (send_resume (optimistic_id 1000) (Inr m101)
        (interim alice conv9
           ([Other_send 1001 (ascii ''yo'')] @ [Batch_applied (Inr [m7])]
              @ [Other_settles (ascii ''tmp-1001'') (Inl TypeError)])
           (send_call alice conv9 1000 (ascii ''hi'') (load_resume (Inr [m7]) ChatView_init))))
     = [\<lparr>key = ascii ''7'', mine = False, bubble_text = ascii ''yo'',
         avatarColor = ascii ''#10B981''\<rparr>]"
proof -
  let ?cv = "load_resume (Inr [m7]) ChatView_init"
  let ?evs = "[Other_send 1001 (ascii ''yo''), Poll_fires, Batch_applied (Inl TypeError)]"
  have ids: "optimistic_id 1000 = ascii ''tmp-1000''" "optimistic_id 1001 = ascii ''tmp-1001''"
    by (simp_all add: optimistic_id_def show_int_def digits.simps ascii_def)
  have mid: "render alice bob (interim alice conv9 ?evs (send_call alice conv9 1000 (ascii ''hi'') ?cv))
     = [\<lparr>key = ascii ''7'', mine = False, bubble_text = ascii ''yo'',
         avatarColor = ascii ''#10B981''\<rparr>,
        \<lparr>key = ascii ''tmp-1000'', mine = True, bubble_text = ascii ''hi'',
         avatarColor = ascii ''#6366F1''\<rparr>,
        \<lparr>key = ascii ''tmp-1001'', mine = True, bubble_text = ascii ''yo'',
         avatarColor = ascii ''#6366F1''\<rparr>]"
    by (simp add: interim_def render_def send_call_def load_resume_def poll_tick_def
        load_call_def ChatView_init_def optimistic_def ids m7_def stored_def alice_def bob_def
        ascii_def)
  have late: "render alice bob
        (interim alice conv9
           ([Other_send 1001 (ascii ''yo'')] @ [Batch_applied (Inr [m7])]
              @ [Other_settles (ascii ''tmp-1001'') (Inl TypeError)])
           (send_call alice conv9 1000 (ascii ''hi'') ?cv))
     = [\<lparr>key = ascii ''7'', mine = False, bubble_text = ascii ''yo'',
         avatarColor = ascii ''#10B981''\<rparr>]"
    by (simp add: interim_def render_def send_call_def send_resume_def load_resume_def
        ChatView_init_def optimistic_def ids m7_def stored_def alice_def bob_def ascii_def)
  have pre: "optimistic_id 1000 \<notin> set (map key (render alice bob ?cv))
      \<and> msg_id m101 \<notin> set (map key (render alice bob ?cv))
      \<and> msg_id m101 \<noteq> optimistic_id 1000
      \<and> msg_text m101 = ascii ''hi'' \<and> sender_id m101 = user_id alice
      \<and> list_all (apart (optimistic_id 1000) (msg_id m101)) ?evs"
    by (simp add: render_def load_resume_def ChatView_init_def ids m7_def m101_def stored_def
        alice_def ascii_def)
  have pre2: "optimistic_id 1000 \<notin> set (map msg_id [m7])
      \<and> list_all (keeps_out (optimistic_id 1000))
          [Other_settles (ascii ''tmp-1001'') (Inl TypeError)]"
    by (simp add: ids m7_def stored_def ascii_def)
  note inst = send_echo_then_confirmed
    [where me = alice and peer = bob and conv = conv9 and now = 1000 and body = "ascii ''hi''"
       and cv = ?cv and sent = m101 and evs = ?evs and batch = "[m7]"
       and earlier = "[Other_send 1001 (ascii ''yo'')]"
       and later = "[Other_settles (ascii ''tmp-1001'') (Inl TypeError)]"]
  from inst pre have "render alice bob (send_resume (optimistic_id 1000) (Inr m101)
        (interim alice conv9 ?evs (send_call alice conv9 1000 (ascii ''hi'') ?cv)))
     = map (\<lambda>b. if key b = optimistic_id 1000
                 then \<lparr>key = msg_id m101, mine = True, bubble_text = ascii ''hi'',
                       avatarColor = avatar_color alice\<rparr>
                 else b)
         (render alice bob (interim alice conv9 ?evs
            (send_call alice conv9 1000 (ascii ''hi'') ?cv)))"
    by blast
  then have settled: "render alice bob (send_resume (optimistic_id 1000) (Inr m101)
        (interim alice conv9 ?evs (send_call alice conv9 1000 (ascii ''hi'') ?cv)))
     = [\<lparr>key = ascii ''7'', mine = False, bubble_text = ascii ''yo'',
         avatarColor = ascii ''#10B981''\<rparr>,
        \<lparr>key = ascii ''101'', mine = True, bubble_text = ascii ''hi'',
         avatarColor = ascii ''#6366F1''\<rparr>,
        \<lparr>key = ascii ''tmp-1001'', mine = True, bubble_text = ascii ''yo'',
         avatarColor = ascii ''#6366F1''\<rparr>]"
    unfolding mid by (simp add: ids m101_def stored_def alice_def ascii_def)
  from inst pre2 have "render alice bob (send_resume (optimistic_id 1000) (Inr m101)
        (interim alice conv9
           ([Other_send 1001 (ascii ''yo'')] @ [Batch_applied (Inr [m7])]
              @ [Other_settles (ascii ''tmp-1001'') (Inl TypeError)])
           (send_call alice conv9 1000 (ascii ''hi'') ?cv)))
     = render alice bob
        (interim alice conv9
           ([Other_send 1001 (ascii ''yo'')] @ [Batch_applied (Inr [m7])]
              @ [Other_settles (ascii ''tmp-1001'') (Inl TypeError)])
           (send_call alice conv9 1000 (ascii ''hi'') ?cv))"
    by blast
  with late have batched: "render alice bob (send_resume (optimistic_id 1000) (Inr m101)
        (interim alice conv9
           ([Other_send 1001 (ascii ''yo'')] @ [Batch_applied (Inr [m7])]
              @ [Other_settles (ascii ''tmp-1001'') (Inl TypeError)])
           (send_call alice conv9 1000 (ascii ''hi'') ?cv)))
     = [\<lparr>key = ascii ''7'', mine = False, bubble_text = ascii ''yo'',
         avatarColor = ascii ''#10B981''\<rparr>]"
    by (simp only:)
  from mid settled batched show ?thesis
    by (intro conjI)
qed

text \<open>
  A failed send filters the optimistic identifier out of the view. When that identifier was
  not in the view before the send, the view is back to what it was.
\<close>

lemma send_failure_reverts:
  "optimistic_id now \<notin> set (map msg_id (messages cv)) \<Longrightarrow>
   messages (send_resume (optimistic_id now) (Inl e) (send_call me conv now txt cv)) = messages cv"
  by (simp add: send_resume_def send_call_def optimistic_def filter_fresh)

text \<open>
  Claim C5 says that a failed send leaves the view as it was before the send. Two sends at
  the same clock reading share an identifier; when the second one fails, the filter takes
  the pending entry of the first one away too, and the view that held one entry before the
  second send is empty after its failure.
\<close>

theorem send_failure_same_reading:
  "messages (send_call alice conv9 1000 (ascii ''a'') ChatView_init)
     = [optimistic alice conv9 1000 (ascii ''a'')]
   \<and> messages (send_resume (optimistic_id 1000) (Inl TypeError)
        (send_call alice conv9 1000 (ascii ''b'')
          (send_call alice conv9 1000 (ascii ''a'') ChatView_init))) = []"
  by (simp add: send_resume_def send_call_def optimistic_def ChatView_init_def)

text \<open>
  The decimal rendering of the clock reading can be read back, so two sends at different
  clock readings get different optimistic identifiers.
\<close>

lemma digit_code: "d < 10 \<Longrightarrow> unat (48 + word_of_nat d :: 16 word) = 48 + d"
proof -
  assume "d < 10"
  then have "unat (of_nat (48 + d) :: 16 word) = 48 + d"
    by (intro of_nat_inverse [OF refl]) simp
  then show ?thesis by simp
qed

lemma number_digits: "number (digits n) = n"
proof (induction n rule: digits.induct)
  case (1 n)
  show ?case
  proof (cases "n < 10")
    case True
    then show ?thesis
      by (subst digits.simps) (simp add: number_def digit_code)
  next
    case False
    with 1 have "number (digits (n div 10)) = n div 10" by simp
    with False show ?thesis
      by (subst digits.simps) (simp add: number_def digit_code)
  qed
qed

lemma digits_inj: "digits a = digits b \<Longrightarrow> a = b"
  by (metis number_digits)

lemma digit_no_minus: "d < 10 \<Longrightarrow> (48 + word_of_nat d :: 16 word) \<noteq> 45"
proof
  assume "d < 10" and "(48 + word_of_nat d :: 16 word) = 45"
  then have "unat (48 + word_of_nat d :: 16 word) = unat (45 :: 16 word)"
    by (simp only:)
  with \<open>d < 10\<close> show False by (simp only: digit_code) simp
qed

lemma digits_no_minus: "45 \<notin> set (digits n)"
proof (induction n rule: digits.induct)
  case (1 n)
  show ?case
  proof (cases "n < 10")
    case True
    then show ?thesis
      using digit_no_minus [of n] by (subst digits.simps) auto
  next
    case False
    with 1 have "45 \<notin> set (digits (n div 10))" by simp
    with False show ?thesis
      using digit_no_minus [of "n mod 10"] by (subst digits.simps) auto
  qed
qed

lemma show_int_inj: "show_int a = show_int b \<Longrightarrow> a = b"
proof -
  assume eq: "show_int a = show_int b"
  have minus: "(45 :: 16 word) # xs \<noteq> digits n" for xs n
    using digits_no_minus [of n] by (metis list.set_intros(1))
  consider "a < 0" "b < 0" | "a < 0" "\<not> b < 0" | "\<not> a < 0" "b < 0" | "\<not> a < 0" "\<not> b < 0"
    by blast
  then show ?thesis
  proof cases
    case 1
    with eq have "digits (nat (- a)) = digits (nat (- b))" by (simp add: show_int_def)
    then have "nat (- a) = nat (- b)" by (rule digits_inj)
    with 1 show ?thesis by simp
  next
    case 2
    with eq minus [of "digits (nat (- a))" "nat b"] show ?thesis
      by (simp add: show_int_def ascii_def)
  next
    case 3
    with eq minus [of "digits (nat (- b))" "nat a"] show ?thesis
      by (simp add: show_int_def ascii_def)
  next
    case 4
    with eq have "digits (nat a) = digits (nat b)" by (simp add: show_int_def)
    then have "nat a = nat b" by (rule digits_inj)
    with 4 show ?thesis by simp
  qed
qed

lemma optimistic_id_inj: "optimistic_id a = optimistic_id b \<Longrightarrow> a = b"
  by (simp add: optimistic_id_def show_int_inj)

text \<open>
  Two sends at the same clock reading are told apart by nothing: when the first one
  settles, both entries are mapped to its confirmed message.
\<close>

lemma same_reading_confirmed_twice:
  "map msg_id (messages (send_resume (optimistic_id 1000) (Inr m101)
      (send_call alice conv9 1000 (ascii ''b'')
        (send_call alice conv9 1000 (ascii ''hi'') ChatView_init))))
   = [ascii ''101'', ascii ''101'']"
  by (simp add: send_resume_def send_call_def optimistic_def ChatView_init_def m101_def
      stored_def)

text \<open>
  Claim C7 says that two distinct sends of one session never get the same local
  identifier. The identifier is the clock reading in milliseconds: two sends at the same
  reading get the same one.
\<close>

theorem same_reading_same_id:
  "map msg_id (messages (send_call alice conv9 1000 (ascii ''b'')
      (send_call alice conv9 1000 (ascii ''a'') ChatView_init)))
   = [ascii ''tmp-1000'', ascii ''tmp-1000'']"
  by (simp add: send_call_def optimistic_def ChatView_init_def optimistic_id_def show_int_def
      digits.simps ascii_def)

section \<open>The polling loops\<close>

text \<open>
  Once the loop of \<^verbatim>\<open>Home\<close> is stopped, neither a timer callback nor the answer of a
  request issued before the stop changes anything: the answer is dropped by the
  \<^verbatim>\<open>if(on)\<close> test.
\<close>

lemma home_event_stopped: "\<not> on h \<Longrightarrow> \<not> home_timer h \<Longrightarrow> home_event me ev h = h"
  by (cases ev) (auto simp: home_tick_def home_load_resume_def split: sum.splits)

lemma home_stopped_quiet: "fold (home_event me) evs (home_stop h) = home_stop h"
proof -
  have "\<not> on g \<Longrightarrow> \<not> home_timer g \<Longrightarrow> fold (home_event me) evs g = g" for g
    by (induction evs) (simp_all add: home_event_stopped)
  then show ?thesis
    by (simp add: home_stop_def)
qed

text \<open>The stopped loop of \<^verbatim>\<open>ChatView\<close> issues no further request.\<close>

lemma chat_event_stopped:
  "\<not> timer cv \<Longrightarrow> \<not> timer (chat_event conv ev cv) \<and> calls (chat_event conv ev cv) = calls cv"
  by (cases ev) (auto simp: poll_tick_def load_resume_def split: sum.splits)

lemma chat_stopped_no_fetch:
  "calls (fold (chat_event conv) evs (poll_stop cv)) = calls cv"
proof -
  have "\<not> timer c \<Longrightarrow> calls (fold (chat_event conv) evs c) = calls c" for c
    by (induction evs arbitrary: c) (simp_all add: chat_event_stopped)
  then show ?thesis
    by (simp add: poll_stop_def)
qed

text \<open>
  Claim C6 says that for both loops an answer arriving after the stop is discarded. The
  cleanup of \<^verbatim>\<open>ChatView\<close> only clears the interval, and \<^verbatim>\<open>load\<close> has no guard: the
  answer of the request issued at mount, arriving after the stop, is written to the
  message list.
\<close>

theorem late_answer_after_stop:
  "calls (poll_stop (poll_start conv9 ChatView_init)) = [ListMessages (ascii ''9'') 100]
   \<and> timer (poll_stop (poll_start conv9 ChatView_init)) = False
   \<and> messages (poll_stop (poll_start conv9 ChatView_init)) = []
   \<and> messages (chat_event conv9 (Arrives (Inr [m101])) (poll_stop (poll_start conv9 ChatView_init)))
       = [m101]"
  by (simp add: poll_stop_def poll_start_def load_call_def load_resume_def ChatView_init_def conv9_def)

section \<open>Transport\<close>




section \<open>Session start\<close>

text \<open>
  Claim C10. A stored profile that \<^verbatim>\<open>JSON.parse\<close> rejects gives the user \<^verbatim>\<open>null\<close>
  and the onboarding screen, which is what no stored profile gives. (\<^verbatim>\<open>JSON.parse\<close> is
  taken to read the literal \<^verbatim>\<open>null\<close> as \<^verbatim>\<open>null\<close>.)
\<close>

theorem unparsable_profile_is_absent:
  assumes "parse (ascii ''null'') = Inr JNull" and "parse s = Inl e"
  shows "useLocalUser parse (Inr (Some s)) = JNull
         \<and> App parse (Inr (Some s)) = Onboard
         \<and> App parse (Inr (Some s)) = App parse (Inr None)"
  using assms by (simp add: useLocalUser_def App_def)

theorem unparsable_profile_is_absent_witness:
  "useLocalUser parse_null (Inr (Some (ascii ''{oops''))) = JNull
   \<and> App parse_null (Inr (Some (ascii ''{oops''))) = Onboard
   \<and> App parse_null (Inr (Some (ascii ''{oops''))) = App parse_null (Inr None)"
proof -
  have known: "parse_null (ascii ''null'') = Inr JNull"
    by (simp add: parse_null_def)
  have broken: "parse_null (ascii ''{oops'') = Inl SyntaxError"
    by (simp add: parse_null_def ascii_def)
  show ?thesis
    by (rule unparsable_profile_is_absent [OF known broken])
qed

section \<open>Interleavings of sends, answers and batches\<close>

subsection \<open>The fields after each client step\<close>

lemma is_local_optimistic_id [simp]: "is_local (optimistic_id now)"
  by (simp add: is_local_def optimistic_id_def ascii_def)

lemma messages_send_call [simp]:
  "messages (send_call me conv now t cv) = messages cv @ [optimistic me conv now t]"
  by (simp add: send_call_def)

lemma msg_id_optimistic [simp]: "msg_id (optimistic me conv now t) = optimistic_id now"
  by (simp add: optimistic_def)

lemma msg_id_stored [simp]: "msg_id (stored sid c u t) = sid"
  by (simp add: stored_def)

lemma messages_poll_tick [simp]: "messages (poll_tick conv cv) = messages cv"
  by (simp add: poll_tick_def load_call_def)

lemma messages_send_resume_Inl [simp]:
  "messages (send_resume p (Inl e) cv) = filter (\<lambda>m. msg_id m \<noteq> p) (messages cv)"
  by (simp add: send_resume_def)

lemma messages_send_resume_Inr [simp]:
  "messages (send_resume p (Inr m) cv) = map (\<lambda>x. if msg_id x = p then m else x) (messages cv)"
  by (simp add: send_resume_def)

lemma messages_load_resume_Inl [simp]: "messages (load_resume (Inl e) cv) = messages cv"
  by (simp add: load_resume_def)

lemma messages_load_resume_Inr [simp]: "messages (load_resume (Inr b) cv) = b"
  by (simp add: load_resume_def)

lemma window_ids: "set (map msg_id (window n ms)) \<subseteq> set (map msg_id ms)"
  unfolding window_def using set_drop_subset [of _ ms] by auto

lemma window_distinct: "distinct (map msg_id ms) \<Longrightarrow> distinct (map msg_id (window n ms))"
  by (simp add: window_def drop_map [symmetric])

lemma replace_keeps:
  "q \<noteq> p \<Longrightarrow> q \<in> set (map f xs) \<Longrightarrow> q \<in> set (map f (map (\<lambda>x. if f x = p then m else x) xs))"
  by (induction xs) auto

lemma replace_distinct:
  "distinct (map f xs) \<Longrightarrow> f m \<notin> set (map f xs) \<Longrightarrow>
   distinct (map f (map (\<lambda>x. if f x = p then m else x) xs))"
proof (induction xs)
  case Nil
  then show ?case by simp
next
  case (Cons x xs)
  have sub: "set (map f (map (\<lambda>x. if f x = p then m else x) xs)) \<subseteq> insert (f m) (set (map f xs))"
    using replace_ids [of f p m xs] by auto
  show ?case
  proof (cases "f x = p")
    case True
    with Cons.prems have "p \<notin> set (map f xs)" by auto
    then have "map (\<lambda>x. if f x = p then m else x) xs = xs"
      by (induction xs) auto
    with Cons.prems True show ?thesis by auto
  next
    case False
    with Cons sub show ?thesis by auto
  qed
qed


lemma replace_mem:
  "x \<in> set (map (\<lambda>x. if f x = p then m else x) xs) \<Longrightarrow> x = m \<or> (x \<in> set xs \<and> f x \<noteq> p)"
  by (induction xs) (auto split: if_splits)

lemma consistentI:
  assumes "store_ok (store s)"
    and "\<And>b. Inr b \<in> set (fetched s) \<Longrightarrow>
           set (map msg_id b) \<subseteq> set (map msg_id (store s)) \<and> distinct (map msg_id b)"
    and "distinct (map msg_id (messages (client s)))"
    and "\<And>m. m \<in> set (messages (client s)) \<Longrightarrow> is_local (msg_id m) \<Longrightarrow>
           submitted s (msg_id m) \<noteq> None \<or> replies s (msg_id m) \<noteq> None"
    and "\<And>m. m \<in> set (messages (client s)) \<Longrightarrow> \<not> is_local (msg_id m) \<Longrightarrow>
           msg_id m \<in> set (map msg_id (store s))"
    and "\<And>p. submitted s p \<noteq> None \<or> replies s p \<noteq> None \<Longrightarrow> is_local p"
    and "\<And>p. submitted s p \<noteq> None \<Longrightarrow> replies s p = None"
    and "\<And>p m. replies s p = Some (Inr m) \<Longrightarrow> msg_id m \<in> set (map msg_id (store s))"
    and "\<And>p q m n. replies s p = Some (Inr m) \<Longrightarrow> replies s q = Some (Inr n) \<Longrightarrow>
           msg_id m = msg_id n \<Longrightarrow> p = q"
    and "\<And>p m. replies s p = Some (Inr m) \<Longrightarrow> p \<in> set (map msg_id (messages (client s))) \<Longrightarrow>
           msg_id m \<notin> set (map msg_id (messages (client s)))"
  shows "consistent s"
  unfolding consistent_def
proof (intro conjI allI impI ballI)
  fix m assume "m \<in> set (messages (client s))"
  then show "if is_local (msg_id m)
       then submitted s (msg_id m) \<noteq> None \<or> replies s (msg_id m) \<noteq> None
       else msg_id m \<in> set (map msg_id (store s))"
    using assms(4,5) by simp
qed (use assms in blast)+

lemma c_store: "consistent s \<Longrightarrow> store_ok (store s)"
  by (simp add: consistent_def)

lemma c_fetched:
  "consistent s \<Longrightarrow> Inr b \<in> set (fetched s) \<Longrightarrow>
   set (map msg_id b) \<subseteq> set (map msg_id (store s)) \<and> distinct (map msg_id b)"
  by (simp add: consistent_def)

lemma c_distinct: "consistent s \<Longrightarrow> distinct (map msg_id (messages (client s)))"
  by (simp add: consistent_def)

lemma c_local:
  "consistent s \<Longrightarrow> m \<in> set (messages (client s)) \<Longrightarrow> is_local (msg_id m) \<Longrightarrow>
   submitted s (msg_id m) \<noteq> None \<or> replies s (msg_id m) \<noteq> None"
  unfolding consistent_def by meson

lemma c_remote:
  "consistent s \<Longrightarrow> m \<in> set (messages (client s)) \<Longrightarrow> \<not> is_local (msg_id m) \<Longrightarrow>
   msg_id m \<in> set (map msg_id (store s))"
  unfolding consistent_def by meson

lemma c_pending_local:
  "consistent s \<Longrightarrow> submitted s p \<noteq> None \<or> replies s p \<noteq> None \<Longrightarrow> is_local p"
  unfolding consistent_def by meson

lemma c_disjoint: "consistent s \<Longrightarrow> submitted s p \<noteq> None \<Longrightarrow> replies s p = None"
  unfolding consistent_def by meson

lemma c_reply_stored:
  "consistent s \<Longrightarrow> replies s p = Some (Inr m) \<Longrightarrow> msg_id m \<in> set (map msg_id (store s))"
  unfolding consistent_def by meson

lemma c_reply_inj:
  "consistent s \<Longrightarrow> replies s p = Some (Inr m) \<Longrightarrow> replies s q = Some (Inr n) \<Longrightarrow>
   msg_id m = msg_id n \<Longrightarrow> p = q"
  unfolding consistent_def by meson

lemma c_exclusive:
  "consistent s \<Longrightarrow> replies s p = Some (Inr m) \<Longrightarrow>
   p \<in> set (map msg_id (messages (client s))) \<Longrightarrow>
   msg_id m \<notin> set (map msg_id (messages (client s)))"
  unfolding consistent_def by meson

lemma c_stored_remote:
  "consistent s \<Longrightarrow> x \<in> set (map msg_id (store s)) \<Longrightarrow> \<not> is_local x"
  using c_store [of s] by (auto simp: store_ok_def)

lemma c_reply_remote: "consistent s \<Longrightarrow> replies s p = Some (Inr m) \<Longrightarrow> \<not> is_local (msg_id m)"
  using c_reply_stored c_stored_remote by blast

subsection \<open>Every step keeps the state consistent\<close>

lemma step_User_sends:
  assumes c: "consistent s" and st: "step me peer conv (User_sends now d) s = Some s'"
  shows "consistent s'"
proof (cases "trim d = []")
  case True
  with c st show ?thesis by (simp add: step_def)
next
  case False
  let ?p = "optimistic_id now"
  from st False have fresh: "?p \<notin> set (map msg_id (messages (client s)))"
    and sub: "submitted s ?p = None" and rep: "replies s ?p = None"
    and s': "s' = s\<lparr>client := send_call me conv now (trim d) (client s),
                     submitted := (submitted s)(?p \<mapsto> trim d)\<rparr>"
    by (auto simp: step_def Let_def split: if_splits)
  have loc: "is_local ?p" by simp
  have msgs: "messages (client s') = messages (client s) @ [optimistic me conv now (trim d)]"
    by (simp add: s')
  have idp: "msg_id (optimistic me conv now (trim d)) = ?p" by simp
  have flds: "store s' = store s" "fetched s' = fetched s" "replies s' = replies s"
    "submitted s' = (submitted s)(?p \<mapsto> trim d)"
    by (simp_all add: s')
  show ?thesis
  proof (rule consistentI)
    show "store_ok (store s')" using c_store [OF c] by (simp add: flds)
    show "set (map msg_id b) \<subseteq> set (map msg_id (store s')) \<and> distinct (map msg_id b)"
      if "Inr b \<in> set (fetched s')" for b
      using that c_fetched [OF c] by (simp add: flds)
    show "distinct (map msg_id (messages (client s')))"
      using c_distinct [OF c] fresh by (simp add: msgs idp)
    show "submitted s' (msg_id m) \<noteq> None \<or> replies s' (msg_id m) \<noteq> None"
      if "m \<in> set (messages (client s'))" "is_local (msg_id m)" for m
      using that c_local [OF c, of m] by (auto simp: msgs flds)
    show "msg_id m \<in> set (map msg_id (store s'))"
      if "m \<in> set (messages (client s'))" "\<not> is_local (msg_id m)" for m
      using that c_remote [OF c, of m] loc by (auto simp: msgs flds idp)
    show "is_local q" if "submitted s' q \<noteq> None \<or> replies s' q \<noteq> None" for q
      using that c_pending_local [OF c, of q] loc by (auto simp: flds split: if_splits)
    show "replies s' q = None" if "submitted s' q \<noteq> None" for q
      using that c_disjoint [OF c, of q] rep by (auto simp: flds split: if_splits)
    show "msg_id m \<in> set (map msg_id (store s'))" if "replies s' q = Some (Inr m)" for q m
      using that c_reply_stored [OF c, of q m] by (simp add: flds)
    show "q = r" if "replies s' q = Some (Inr m)" "replies s' r = Some (Inr n)"
      "msg_id m = msg_id n" for q r m n
      using that c_reply_inj [OF c, of q m r n] by (simp add: flds)
    show "msg_id m \<notin> set (map msg_id (messages (client s')))"
      if r: "replies s' q = Some (Inr m)" and q: "q \<in> set (map msg_id (messages (client s')))"
      for q m
    proof -
      from r have r0: "replies s q = Some (Inr m)" by (simp add: flds)
      with rep have "q \<noteq> ?p" by auto
      with q have "q \<in> set (map msg_id (messages (client s)))" by (auto simp: msgs idp)
      with r0 have "msg_id m \<notin> set (map msg_id (messages (client s)))"
        using c_exclusive [OF c] by blast
      moreover have "msg_id m \<noteq> ?p" using c_reply_remote [OF c r0] loc by auto
      ultimately show ?thesis by (auto simp: msgs idp)
    qed
  qed
qed


lemma step_Server_accepts:
  assumes c: "consistent s" and st: "step me peer conv (Server_accepts p sid lost) s = Some s'"
  shows "consistent s'"
proof -
  from st obtain t where sub: "submitted s p = Some t"
    by (auto simp: step_def split: option.splits)
  let ?m = "stored sid (conv_id conv) (user_id me) t"
  let ?a = "case lost of None \<Rightarrow> Inr ?m | Some e \<Rightarrow> (Inl e :: js_error + message)"
  from st sub have rem: "\<not> is_local sid" and new: "sid \<notin> set (map msg_id (store s))"
    and s': "s' = s\<lparr>store := store s @ [?m], submitted := (submitted s)(p := None),
                     replies := (replies s)(p \<mapsto> ?a)\<rparr>"
    by (auto simp: step_def Let_def split: if_splits)
  have idm: "msg_id ?m = sid" by simp
  have a: "?a = Inr n \<Longrightarrow> n = ?m" for n
    by (auto split: option.splits)
  have flds: "store s' = store s @ [?m]" "fetched s' = fetched s"
    "replies s' = (replies s)(p \<mapsto> ?a)" "submitted s' = (submitted s)(p := None)"
    "messages (client s') = messages (client s)"
    by (simp_all add: s')
  have locp: "is_local p" using c_pending_local [OF c, of p] sub by simp
  have absent: "sid \<notin> set (map msg_id (messages (client s)))"
  proof
    assume "sid \<in> set (map msg_id (messages (client s)))"
    then obtain x where x: "x \<in> set (messages (client s))" "msg_id x = sid" by auto
    with c_remote [OF c, of x] rem new show False by simp
  qed
  show ?thesis
  proof (rule consistentI)
    show "store_ok (store s')"
      using c_store [OF c] rem new by (auto simp: flds store_ok_def idm)
    show "set (map msg_id b) \<subseteq> set (map msg_id (store s')) \<and> distinct (map msg_id b)"
      if "Inr b \<in> set (fetched s')" for b
      using that c_fetched [OF c, of b] by (auto simp: flds)
    show "distinct (map msg_id (messages (client s')))"
      using c_distinct [OF c] by (simp add: flds)
    show "submitted s' (msg_id x) \<noteq> None \<or> replies s' (msg_id x) \<noteq> None"
      if "x \<in> set (messages (client s'))" "is_local (msg_id x)" for x
      using that c_local [OF c, of x] by (auto simp: flds)
    show "msg_id x \<in> set (map msg_id (store s'))"
      if "x \<in> set (messages (client s'))" "\<not> is_local (msg_id x)" for x
      using that c_remote [OF c, of x] by (auto simp: flds)
    show "is_local q" if "submitted s' q \<noteq> None \<or> replies s' q \<noteq> None" for q
      using that c_pending_local [OF c, of q] locp by (auto simp: flds split: if_splits)
    show "replies s' q = None" if "submitted s' q \<noteq> None" for q
      using that c_disjoint [OF c, of q] by (auto simp: flds split: if_splits)
    show "msg_id n \<in> set (map msg_id (store s'))" if "replies s' q = Some (Inr n)" for q n
      using that c_reply_stored [OF c, of q n] a [of n] by (auto simp: flds idm split: if_splits)
    show "q = r" if "replies s' q = Some (Inr k)" "replies s' r = Some (Inr n)"
      "msg_id k = msg_id n" for q r k n
    proof (cases "q = p"; cases "r = p")
      assume "q = p" "r = p" then show ?thesis by simp
    next
      assume "q = p" "r \<noteq> p"
      with that a [of k] have "k = ?m" "replies s r = Some (Inr n)" by (auto simp: flds)
      with that(3) c_reply_stored [OF c, of r n] new idm show ?thesis by simp
    next
      assume "q \<noteq> p" "r = p"
      with that a [of n] have "n = ?m" "replies s q = Some (Inr k)" by (auto simp: flds)
      with that(3) c_reply_stored [OF c, of q k] new idm show ?thesis by simp
    next
      assume "q \<noteq> p" "r \<noteq> p"
      with that c_reply_inj [OF c, of q k r n] show ?thesis by (simp add: flds)
    qed
    show "msg_id n \<notin> set (map msg_id (messages (client s')))"
      if r: "replies s' q = Some (Inr n)" and q: "q \<in> set (map msg_id (messages (client s')))"
      for q n
    proof (cases "q = p")
      case True
      with r a [of n] have "n = ?m" by (simp add: flds)
      with absent show ?thesis by (simp add: flds idm)
    next
      case False
      with r have "replies s q = Some (Inr n)" by (simp add: flds)
      with q c_exclusive [OF c, of q n] show ?thesis by (simp add: flds)
    qed
  qed
qed

lemma step_Send_fails:
  assumes c: "consistent s" and st: "step me peer conv (Send_fails p e) s = Some s'"
  shows "consistent s'"
proof -
  from st obtain t where sub: "submitted s p = Some t"
    by (auto simp: step_def split: option.splits)
  with st have s': "s' = s\<lparr>submitted := (submitted s)(p := None),
                     replies := (replies s)(p \<mapsto> Inl e)\<rparr>"
    by (auto simp: step_def)
  have flds: "store s' = store s" "fetched s' = fetched s"
    "replies s' = (replies s)(p \<mapsto> Inl e)" "submitted s' = (submitted s)(p := None)"
    "messages (client s') = messages (client s)"
    by (simp_all add: s')
  have locp: "is_local p" using c_pending_local [OF c, of p] sub by simp
  show ?thesis
  proof (rule consistentI)
    show "store_ok (store s')"
      using c_store [OF c] by (simp add: flds)
    show "set (map msg_id b) \<subseteq> set (map msg_id (store s')) \<and> distinct (map msg_id b)"
      if "Inr b \<in> set (fetched s')" for b
      using that c_fetched [OF c, of b] by (simp add: flds)
    show "distinct (map msg_id (messages (client s')))"
      using c_distinct [OF c] by (simp add: flds)
    show "submitted s' (msg_id x) \<noteq> None \<or> replies s' (msg_id x) \<noteq> None"
      if "x \<in> set (messages (client s'))" "is_local (msg_id x)" for x
      using that c_local [OF c, of x] by (auto simp: flds)
    show "msg_id x \<in> set (map msg_id (store s'))"
      if "x \<in> set (messages (client s'))" "\<not> is_local (msg_id x)" for x
      using that c_remote [OF c, of x] by (simp add: flds)
    show "is_local q" if "submitted s' q \<noteq> None \<or> replies s' q \<noteq> None" for q
      using that c_pending_local [OF c, of q] locp by (auto simp: flds split: if_splits)
    show "replies s' q = None" if "submitted s' q \<noteq> None" for q
      using that c_disjoint [OF c, of q] by (auto simp: flds split: if_splits)
    show "msg_id n \<in> set (map msg_id (store s'))" if "replies s' q = Some (Inr n)" for q n
      using that c_reply_stored [OF c, of q n] by (auto simp: flds split: if_splits)
    show "q = r" if "replies s' q = Some (Inr k)" "replies s' r = Some (Inr n)"
      "msg_id k = msg_id n" for q r k n
      using that c_reply_inj [OF c, of q k r n] by (auto simp: flds split: if_splits)
    show "msg_id n \<notin> set (map msg_id (messages (client s')))"
      if "replies s' q = Some (Inr n)" "q \<in> set (map msg_id (messages (client s')))" for q n
      using that c_exclusive [OF c, of q n] by (auto simp: flds split: if_splits)
  qed
qed


lemma step_Send_settles:
  assumes c: "consistent s" and st: "step me peer conv (Send_settles p) s = Some s'"
  shows "consistent s'"
proof -
  from st obtain a where rep: "replies s p = Some a"
    by (auto simp: step_def split: option.splits)
  with st have s': "s' = s\<lparr>client := send_resume p a (client s),
                     replies := (replies s)(p := None)\<rparr>"
    by (auto simp: step_def)
  have flds: "store s' = store s" "fetched s' = fetched s"
    "replies s' = (replies s)(p := None)" "submitted s' = submitted s"
    by (simp_all add: s')
  have locp: "is_local p" using c_pending_local [OF c, of p] rep by simp
  let ?ids = "set (map msg_id (messages (client s)))"
  let ?ids' = "set (map msg_id (messages (client s')))"
  have mem: "x \<in> set (messages (client s')) \<Longrightarrow>
      (\<exists>m. a = Inr m \<and> x = m) \<or> (x \<in> set (messages (client s)) \<and> msg_id x \<noteq> p)" for x
  proof (cases a)
    case (Inl e)
    assume "x \<in> set (messages (client s'))"
    with Inl show ?thesis by (simp add: s')
  next
    case (Inr m)
    assume "x \<in> set (messages (client s'))"
    with Inr replace_mem [of x msg_id p m "messages (client s)"] show ?thesis
      by (simp add: s')
  qed
  have ids: "?ids' \<subseteq> (?ids - {p}) \<union> {i. \<exists>m. a = Inr m \<and> i = msg_id m}"
    using mem by auto
  have dist: "distinct (map msg_id (messages (client s')))"
  proof (cases a)
    case (Inl e)
    then show ?thesis using c_distinct [OF c] by (simp add: s' distinct_map_filter)
  next
    case (Inr m)
    show ?thesis
    proof (cases "p \<in> ?ids")
      case True
      with rep Inr c_exclusive [OF c, of p m] have "msg_id m \<notin> ?ids" by simp
      with c_distinct [OF c] replace_distinct [of msg_id "messages (client s)" m p] Inr
      show ?thesis by (simp add: s')
    next
      case False
      then have "map (\<lambda>x. if msg_id x = p then m else x) (messages (client s))
          = messages (client s)"
        by (rule map_fresh)
      with c_distinct [OF c] Inr show ?thesis by (simp add: s')
    qed
  qed
  show ?thesis
  proof (rule consistentI)
    show "store_ok (store s')"
      using c_store [OF c] by (simp add: flds)
    show "set (map msg_id b) \<subseteq> set (map msg_id (store s')) \<and> distinct (map msg_id b)"
      if "Inr b \<in> set (fetched s')" for b
      using that c_fetched [OF c, of b] by (simp add: flds)
    show "distinct (map msg_id (messages (client s')))" by (rule dist)
    show "submitted s' (msg_id x) \<noteq> None \<or> replies s' (msg_id x) \<noteq> None"
      if x: "x \<in> set (messages (client s'))" and l: "is_local (msg_id x)" for x
    proof -
      from mem [OF x] show ?thesis
      proof
        assume "\<exists>m. a = Inr m \<and> x = m"
        with rep c_reply_remote [OF c, of p x] l show ?thesis by auto
      next
        assume "x \<in> set (messages (client s)) \<and> msg_id x \<noteq> p"
        with c_local [OF c, of x] l show ?thesis by (simp add: flds)
      qed
    qed
    show "msg_id x \<in> set (map msg_id (store s'))"
      if x: "x \<in> set (messages (client s'))" and l: "\<not> is_local (msg_id x)" for x
    proof -
      from mem [OF x] show ?thesis
      proof
        assume "\<exists>m. a = Inr m \<and> x = m"
        with rep c_reply_stored [OF c, of p x] show ?thesis by (auto simp: flds)
      next
        assume "x \<in> set (messages (client s)) \<and> msg_id x \<noteq> p"
        with c_remote [OF c, of x] l show ?thesis by (simp add: flds)
      qed
    qed
    show "is_local q" if "submitted s' q \<noteq> None \<or> replies s' q \<noteq> None" for q
      using that c_pending_local [OF c, of q] by (auto simp: flds split: if_splits)
    show "replies s' q = None" if "submitted s' q \<noteq> None" for q
      using that c_disjoint [OF c, of q] by (auto simp: flds split: if_splits)
    show "msg_id n \<in> set (map msg_id (store s'))" if "replies s' q = Some (Inr n)" for q n
      using that c_reply_stored [OF c, of q n] by (auto simp: flds split: if_splits)
    show "q = r" if "replies s' q = Some (Inr k)" "replies s' r = Some (Inr n)"
      "msg_id k = msg_id n" for q r k n
      using that c_reply_inj [OF c, of q k r n] by (auto simp: flds split: if_splits)
    show "msg_id n \<notin> ?ids'" if r: "replies s' q = Some (Inr n)" and q: "q \<in> ?ids'" for q n
    proof -
      from r have qp: "q \<noteq> p" and r0: "replies s q = Some (Inr n)"
        by (auto simp: flds split: if_splits)
      have locq: "is_local q" using c_pending_local [OF c, of q] r0 by simp
      have "q \<in> ?ids"
      proof -
        from q ids have "q \<in> ?ids \<or> (\<exists>m. a = Inr m \<and> q = msg_id m)" by blast
        moreover have "\<not> (\<exists>m. a = Inr m \<and> q = msg_id m)"
          using rep c_reply_remote [OF c, of p] locq by auto
        ultimately show ?thesis by blast
      qed
      with r0 c_exclusive [OF c, of q n] have out: "msg_id n \<notin> ?ids" by simp
      have "\<not> (\<exists>m. a = Inr m \<and> msg_id n = msg_id m)"
        using rep r0 qp c_reply_inj [OF c, of q n p] by auto
      with out ids show ?thesis by blast
    qed
  qed
qed

lemma step_Peer_posts:
  assumes c: "consistent s" and st: "step me peer conv (Peer_posts sid t) s = Some s'"
  shows "consistent s'"
proof -
  let ?m = "stored sid (conv_id conv) (user_id peer) t"
  from st have rem: "\<not> is_local sid" and new: "sid \<notin> set (map msg_id (store s))"
    and s': "s' = s\<lparr>store := store s @ [?m]\<rparr>"
    by (auto simp: step_def split: if_splits)
  have flds: "store s' = store s @ [?m]" "fetched s' = fetched s"
    "replies s' = replies s" "submitted s' = submitted s"
    "messages (client s') = messages (client s)"
    by (simp_all add: s')
  show ?thesis
  proof (rule consistentI)
    show "store_ok (store s')"
      using c_store [OF c] rem new by (auto simp: flds store_ok_def)
    show "set (map msg_id b) \<subseteq> set (map msg_id (store s')) \<and> distinct (map msg_id b)"
      if "Inr b \<in> set (fetched s')" for b
      using that c_fetched [OF c, of b] by (auto simp: flds)
    show "distinct (map msg_id (messages (client s')))"
      using c_distinct [OF c] by (simp add: flds)
    show "submitted s' (msg_id x) \<noteq> None \<or> replies s' (msg_id x) \<noteq> None"
      if "x \<in> set (messages (client s'))" "is_local (msg_id x)" for x
      using that c_local [OF c, of x] by (simp add: flds)
    show "msg_id x \<in> set (map msg_id (store s'))"
      if "x \<in> set (messages (client s'))" "\<not> is_local (msg_id x)" for x
      using that c_remote [OF c, of x] by (auto simp: flds)
    show "is_local q" if "submitted s' q \<noteq> None \<or> replies s' q \<noteq> None" for q
      using that c_pending_local [OF c, of q] by (simp add: flds)
    show "replies s' q = None" if "submitted s' q \<noteq> None" for q
      using that c_disjoint [OF c, of q] by (simp add: flds)
    show "msg_id n \<in> set (map msg_id (store s'))" if "replies s' q = Some (Inr n)" for q n
      using that c_reply_stored [OF c, of q n] by (auto simp: flds)
    show "q = r" if "replies s' q = Some (Inr k)" "replies s' r = Some (Inr n)"
      "msg_id k = msg_id n" for q r k n
      using that c_reply_inj [OF c, of q k r n] by (simp add: flds)
    show "msg_id n \<notin> set (map msg_id (messages (client s')))"
      if "replies s' q = Some (Inr n)" "q \<in> set (map msg_id (messages (client s')))" for q n
      using that c_exclusive [OF c, of q n] by (simp add: flds)
  qed
qed


lemma consistent_cong:
  assumes c: "consistent s"
    and eq: "store s' = store s" "submitted s' = submitted s" "replies s' = replies s"
      "messages (client s') = messages (client s)"
    and fet: "\<And>b. Inr b \<in> set (fetched s') \<Longrightarrow>
           set (map msg_id b) \<subseteq> set (map msg_id (store s)) \<and> distinct (map msg_id b)"
  shows "consistent s'"
proof (rule consistentI)
  show "store_ok (store s')"
    using c_store [OF c] by (simp add: eq)
  show "set (map msg_id b) \<subseteq> set (map msg_id (store s')) \<and> distinct (map msg_id b)"
    if "Inr b \<in> set (fetched s')" for b
    using fet [OF that] by (simp add: eq)
  show "distinct (map msg_id (messages (client s')))"
    using c_distinct [OF c] by (simp add: eq)
  show "submitted s' (msg_id x) \<noteq> None \<or> replies s' (msg_id x) \<noteq> None"
    if "x \<in> set (messages (client s'))" "is_local (msg_id x)" for x
    using that c_local [OF c, of x] by (simp add: eq)
  show "msg_id x \<in> set (map msg_id (store s'))"
    if "x \<in> set (messages (client s'))" "\<not> is_local (msg_id x)" for x
    using that c_remote [OF c, of x] by (simp add: eq)
  show "is_local q" if "submitted s' q \<noteq> None \<or> replies s' q \<noteq> None" for q
    using that c_pending_local [OF c, of q] by (simp add: eq)
  show "replies s' q = None" if "submitted s' q \<noteq> None" for q
    using that c_disjoint [OF c, of q] by (simp add: eq)
  show "msg_id n \<in> set (map msg_id (store s'))" if "replies s' q = Some (Inr n)" for q n
    using that c_reply_stored [OF c, of q n] by (simp add: eq)
  show "q = r" if "replies s' q = Some (Inr k)" "replies s' r = Some (Inr n)"
    "msg_id k = msg_id n" for q r k n
    using that c_reply_inj [OF c, of q k r n] by (simp add: eq)
  show "msg_id n \<notin> set (map msg_id (messages (client s')))"
    if "replies s' q = Some (Inr n)" "q \<in> set (map msg_id (messages (client s')))" for q n
    using that c_exclusive [OF c, of q n] by (simp add: eq)
qed

lemma step_Timer_fires:
  assumes c: "consistent s" and st: "step me peer conv Timer_fires s = Some s'"
  shows "consistent s'"
proof -
  from st have s': "s' = s\<lparr>client := poll_tick conv (client s),
      requested := requested s + (if timer (client s) then 1 else 0)\<rparr>"
    by (simp add: step_def)
  show ?thesis
    by (rule consistent_cong [OF c]) (use c_fetched [OF c] in \<open>simp_all add: s'\<close>)
qed

lemma step_Server_lists:
  assumes c: "consistent s" and st: "step me peer conv Server_lists s = Some s'"
  shows "consistent s'"
proof -
  from st have s': "s' = s\<lparr>requested := requested s - 1,
      fetched := fetched s @ [Inr (window 100 (store s))]\<rparr>"
    by (simp add: step_def split: if_splits)
  have w: "set (map msg_id (window 100 (store s))) \<subseteq> set (map msg_id (store s))
      \<and> distinct (map msg_id (window 100 (store s)))"
    using window_ids [of 100 "store s"] window_distinct [of "store s" 100] c_store [OF c]
    by (simp add: store_ok_def)
  show ?thesis
    by (rule consistent_cong [OF c]) (use c_fetched [OF c] w in \<open>auto simp: s'\<close>)
qed

lemma step_List_fails:
  assumes c: "consistent s" and st: "step me peer conv (List_fails e) s = Some s'"
  shows "consistent s'"
proof -
  from st have s': "s' = s\<lparr>requested := requested s - 1, fetched := fetched s @ [Inl e]\<rparr>"
    by (simp add: step_def split: if_splits)
  show ?thesis
    by (rule consistent_cong [OF c]) (use c_fetched [OF c] in \<open>auto simp: s'\<close>)
qed

lemma step_List_settles:
  assumes c: "consistent s" and st: "step me peer conv (List_settles k) s = Some s'"
  shows "consistent s'"
proof -
  from st have k: "k < length (fetched s)"
    and s': "s' = s\<lparr>client := load_resume (fetched s ! k) (client s),
      fetched := take k (fetched s) @ drop (Suc k) (fetched s)\<rparr>"
    by (auto simp: step_def split: if_splits)
  have sub: "set (fetched s') \<subseteq> set (fetched s)"
    using set_take_subset [of k "fetched s"] set_drop_subset [of "Suc k" "fetched s"]
    by (auto simp: s')
  have fet: "set (map msg_id b) \<subseteq> set (map msg_id (store s)) \<and> distinct (map msg_id b)"
    if "Inr b \<in> set (fetched s')" for b
    using that sub c_fetched [OF c, of b] by blast
  show ?thesis
  proof (cases "fetched s ! k")
    case (Inl e)
    show ?thesis
      by (rule consistent_cong [OF c]) (use fet Inl in \<open>simp_all add: s'\<close>)
  next
    case (Inr b)
    with k have "Inr b \<in> set (fetched s)" by (metis nth_mem)
    from c_fetched [OF c this]
    have b: "set (map msg_id b) \<subseteq> set (map msg_id (store s))" "distinct (map msg_id b)"
      by simp_all
    have rem: "\<not> is_local (msg_id x)" if "x \<in> set b" for x
      using that b(1) c_stored_remote [OF c, of "msg_id x"] by auto
    have flds: "store s' = store s" "replies s' = replies s" "submitted s' = submitted s"
      "messages (client s') = b"
      using Inr by (simp_all add: s')
    show ?thesis
    proof (rule consistentI)
      show "store_ok (store s')"
        using c_store [OF c] by (simp add: flds)
      show "set (map msg_id b') \<subseteq> set (map msg_id (store s')) \<and> distinct (map msg_id b')"
        if "Inr b' \<in> set (fetched s')" for b'
        using that fet [of b'] by (simp add: flds)
      show "distinct (map msg_id (messages (client s')))"
        using b(2) by (simp add: flds)
      show "submitted s' (msg_id x) \<noteq> None \<or> replies s' (msg_id x) \<noteq> None"
        if "x \<in> set (messages (client s'))" "is_local (msg_id x)" for x
        using that rem [of x] by (simp add: flds)
      show "msg_id x \<in> set (map msg_id (store s'))"
        if "x \<in> set (messages (client s'))" "\<not> is_local (msg_id x)" for x
        using that b(1) by (auto simp: flds)
      show "is_local q" if "submitted s' q \<noteq> None \<or> replies s' q \<noteq> None" for q
        using that c_pending_local [OF c, of q] by (simp add: flds)
      show "replies s' q = None" if "submitted s' q \<noteq> None" for q
        using that c_disjoint [OF c, of q] by (simp add: flds)
      show "msg_id n \<in> set (map msg_id (store s'))" if "replies s' q = Some (Inr n)" for q n
        using that c_reply_stored [OF c, of q n] by (simp add: flds)
      show "q = r" if "replies s' q = Some (Inr j)" "replies s' r = Some (Inr n)"
        "msg_id j = msg_id n" for q r j n
        using that c_reply_inj [OF c, of q j r n] by (simp add: flds)
      show "msg_id n \<notin> set (map msg_id (messages (client s')))"
        if r: "replies s' q = Some (Inr n)" and q: "q \<in> set (map msg_id (messages (client s')))"
        for q n
      proof -
        from r have "is_local q" using c_pending_local [OF c, of q] by (simp add: flds)
        with q rem show ?thesis by (auto simp: flds)
      qed
    qed
  qed
qed

lemma step_consistent:
  assumes c: "consistent s" and st: "step me peer conv ev s = Some s'"
  shows "consistent s'"
proof (cases ev)
  case (User_sends now d)
  with st show ?thesis by (simp add: step_User_sends [OF c])
next
  case (Server_accepts p sid lost)
  with st show ?thesis by (simp add: step_Server_accepts [OF c])
next
  case (Send_fails p e)
  with st show ?thesis by (simp add: step_Send_fails [OF c])
next
  case (Send_settles p)
  with st show ?thesis by (simp add: step_Send_settles [OF c])
next
  case (Peer_posts sid t)
  with st show ?thesis by (simp add: step_Peer_posts [OF c])
next
  case Timer_fires
  with st show ?thesis by (simp add: step_Timer_fires [OF c])
next
  case Server_lists
  with st show ?thesis by (simp add: step_Server_lists [OF c])
next
  case (List_fails e)
  with st show ?thesis by (simp add: step_List_fails [OF c])
next
  case (List_settles k)
  with st show ?thesis by (simp add: step_List_settles [OF c])
qed

lemma run_consistent:
  "consistent s \<Longrightarrow> run me peer conv evs s = Some s' \<Longrightarrow> consistent s'"
proof (induction evs arbitrary: s)
  case Nil
  then show ?case by simp
next
  case (Cons ev evs)
  then show ?case
    by (auto split: option.splits dest: step_consistent)
qed

lemma mount_consistent: "store_ok before \<Longrightarrow> consistent (mount conv before)"
  by (rule consistentI)
    (simp_all add: mount_def poll_start_def load_call_def ChatView_init_def)

subsection \<open>The view under every interleaving\<close>

lemma render_keys: "map key (render me peer cv) = map msg_id (messages cv)"
  by (simp add: render_def comp_def)


text \<open>
  Claim C3 says that the pending entry is removed exactly when the confirmed one appears.
  A batch takes it away before: the user sends at clock reading 1000 and the view shows the
  pending entry; then the answer of the list request issued at mount, with the window of
  the still empty store, is applied, and the view is empty although the send has not even
  reached the server.
\<close>

theorem pending_removed_without_confirmation:
  "map_option (\<lambda>s. (map key (render alice bob (client s)), submitted s (optimistic_id 1000), store s))
     (run alice bob conv9 [User_sends 1000 (ascii ''hi'')] (mount conv9 []))
     = Some ([ascii ''tmp-1000''], Some (ascii ''hi''), [])
   \<and> map_option (\<lambda>s. (map key (render alice bob (client s)), submitted s (optimistic_id 1000), store s))
     (run alice bob conv9 [User_sends 1000 (ascii ''hi''), Server_lists, List_settles 0]
        (mount conv9 []))
     = Some ([], Some (ascii ''hi''), [])"
proof -
  have sent: "run alice bob conv9 [User_sends 1000 (ascii ''hi'')] (mount conv9 [])
      = Some \<lparr>client = \<lparr>messages = [optimistic alice conv9 1000 (ascii ''hi'')],
                 loading = True, timer = True,
                 calls = [ListMessages (conv_id conv9) 100,
                          SendMessage (conv_id conv9) (user_id alice) (ascii ''hi'')],
                 alerts = [], scrolls = 1\<rparr>,
               store = [], submitted = [optimistic_id 1000 \<mapsto> ascii ''hi''],
               replies = Map.empty, requested = 1, fetched = []\<rparr>"
    by (simp add: step_def Let_def trim_def is_ws_def ascii_def mount_def poll_start_def
        load_call_def ChatView_init_def send_call_def)
  have listed: "run alice bob conv9 [User_sends 1000 (ascii ''hi''), Server_lists, List_settles 0]
        (mount conv9 [])
      = Some \<lparr>client = \<lparr>messages = [], loading = False, timer = True,
                 calls = [ListMessages (conv_id conv9) 100,
                          SendMessage (conv_id conv9) (user_id alice) (ascii ''hi'')],
                 alerts = [], scrolls = 2\<rparr>,
               store = [], submitted = [optimistic_id 1000 \<mapsto> ascii ''hi''],
               replies = Map.empty, requested = 0, fetched = []\<rparr>"
    by (simp add: step_def Let_def trim_def is_ws_def ascii_def mount_def poll_start_def
        load_call_def ChatView_init_def send_call_def window_def load_resume_def)
  show ?thesis
    unfolding sent listed
    by (simp add: render_keys optimistic_id_def show_int_def digits.simps ascii_def)
qed

text \<open>
  Claim C3, as the code has it. Let the server's identifiers be pairwise distinct and never
  of the local form, and let no send get an identifier that is still in use. Then, after
  every sequence of sends, server steps, answers and batches, no two entries of the
  rendered sequence carry the same identifier; the view never holds both the pending entry
  of a send and the confirmed message of its answer; and every pending entry in the view
  belongs to a send that has not settled yet: it is gone when the send settles, or
  earlier, when a batch is applied.
\<close>

theorem view_consistent_under_interleaving:
  assumes "store_ok before" and "run me peer conv evs (mount conv before) = Some s"
  shows "distinct (map key (render me peer (client s)))
         \<and> (\<forall>p m. replies s p = Some (Inr m) \<longrightarrow>
               \<not> (p \<in> set (map key (render me peer (client s)))
                  \<and> msg_id m \<in> set (map key (render me peer (client s)))))
         \<and> (\<forall>b \<in> set (render me peer (client s)). is_local (key b) \<longrightarrow>
               submitted s (key b) \<noteq> None \<or> replies s (key b) \<noteq> None)"
proof -
  have c: "consistent s"
    using run_consistent [OF mount_consistent [OF assms(1)] assms(2)] .
  have local: "submitted s i \<noteq> None \<or> replies s i \<noteq> None"
    if "i \<in> set (map msg_id (messages (client s)))" "is_local i" for i
    using that c_local [OF c] by auto
  have "\<forall>b \<in> set (render me peer (client s)). is_local (key b) \<longrightarrow>
               submitted s (key b) \<noteq> None \<or> replies s (key b) \<noteq> None"
  proof (intro ballI impI)
    fix b assume "b \<in> set (render me peer (client s))" and l: "is_local (key b)"
    then have "key b \<in> set (map key (render me peer (client s)))" by simp
    then have "key b \<in> set (map msg_id (messages (client s)))" by (simp only: render_keys)
    with l show "submitted s (key b) \<noteq> None \<or> replies s (key b) \<noteq> None"
      by (rule local [rotated -1])
  qed
  with c_distinct [OF c] c_exclusive [OF c] show ?thesis
    by (simp only: render_keys) blast
qed

theorem view_consistent_under_interleaving_witness:
  "store_ok [m7]
   \<and> (\<exists>s. run alice bob conv9
          [User_sends 1000 (ascii '' hi ''), Server_accepts (ascii ''tmp-1000'') (ascii ''101'') None,
           Server_lists, List_settles 0, Send_settles (ascii ''tmp-1000'')]
          (mount conv9 [m7]) = Some s
        \<and> map key (render alice bob (client s)) = [ascii ''7'', ascii ''101'']
        \<and> distinct (map key (render alice bob (client s))))"
proof -
  let ?evs = "[User_sends 1000 (ascii '' hi ''), Server_accepts (ascii ''tmp-1000'') (ascii ''101'') None,
           Server_lists, List_settles 0, Send_settles (ascii ''tmp-1000'')]"
  let ?s = "\<lparr>client = \<lparr>messages = [m7, m101], loading = False, timer = True,
                 calls = [ListMessages (conv_id conv9) 100,
                          SendMessage (conv_id conv9) (user_id alice) (ascii ''hi'')],
                 alerts = [], scrolls = 2\<rparr>,
               store = [m7, m101], submitted = Map.empty, replies = Map.empty,
               requested = 0, fetched = []\<rparr>"
  have ok: "store_ok [m7]"
    by (simp add: store_ok_def m7_def is_local_def ascii_def)
  have r: "run alice bob conv9 ?evs (mount conv9 [m7]) = Some ?s"
    by (simp add: step_def Let_def trim_def is_ws_def ascii_def optimistic_id_def show_int_def
        digits.simps mount_def poll_start_def load_call_def ChatView_init_def send_call_def
        optimistic_def window_def load_resume_def send_resume_def is_local_def m7_def m101_def
        stored_def alice_def conv9_def)
  have k: "map key (render alice bob (client ?s)) = [ascii ''7'', ascii ''101'']"
    by (simp add: render_keys m7_def m101_def)
  have d: "distinct (map key (render alice bob (client ?s)))"
    by (rule view_consistent_under_interleaving [OF ok r, THEN conjunct1])
  show ?thesis
  proof (intro conjI exI)
    show "store_ok [m7]" by (rule ok)
    show "run alice bob conv9 ?evs (mount conv9 [m7]) = Some ?s" by (rule r)
    show "map key (render alice bob (client ?s)) = [ascii ''7'', ascii ''101'']" by (rule k)
    show "distinct (map key (render alice bob (client ?s)))" by (rule d)
  qed
qed

end
